theory Spec2Isabelle
  imports Main "HOL-Library.Word" "HOL-Library.AList" "HOL-Library.Char_ord"
    "HOL-Library.Sublist"
begin

section \<open>Bytes, panics and slices\<close>

text \<open>
  Go's \<^verbatim>\<open>byte\<close> is modelled by \<^typ>\<open>char\<close> (a value in 0..255, ordered by its code), a
  \<^verbatim>\<open>[]byte\<close> and a \<^verbatim>\<open>string\<close> by \<^typ>\<open>char list\<close>. A run-time panic is an error value;
  every function that can panic returns \<open>error + result\<close>.
\<close>

type_synonym byte = char

datatype error = Panic string

abbreviation BS :: byte where \<open>BS \<equiv> CHR 0x08\<close>
abbreviation TAB :: byte where \<open>TAB \<equiv> CHR 0x09\<close>
abbreviation NL :: byte where \<open>NL \<equiv> CHR 0x0A\<close>
abbreviation SPC :: byte where \<open>SPC \<equiv> CHR 0x20\<close>
abbreviation QUOTE :: byte where \<open>QUOTE \<equiv> CHR 0x22\<close>
abbreviation BACKSLASH :: byte where \<open>BACKSLASH \<equiv> CHR 0x5C\<close>

definition indexOutOfRange :: error where
  \<open>indexOutOfRange = Panic ''runtime error: index out of range''\<close>

definition sliceOutOfRange :: error where
  \<open>sliceOutOfRange = Panic ''runtime error: slice bounds out of range''\<close>

text \<open>\<^verbatim>\<open>bytes.IndexAny(b, chars)\<close>: the index of the first byte of \<open>b\<close> that occurs in
  \<open>chars\<close>, or \<open>-1\<close>.\<close>

fun IndexAny :: "byte list \<Rightarrow> byte list \<Rightarrow> int" where
  \<open>IndexAny [] chars = -1\<close>
| \<open>IndexAny (x # xs) chars =
     (if x \<in> set chars then 0
      else let r = IndexAny xs chars in if r < 0 then -1 else r + 1)\<close>

text \<open>\<^verbatim>\<open>bytes.Index(b, sep)\<close>: the index of the first occurrence of \<open>sep\<close> in \<open>b\<close>, or
  \<open>-1\<close>.\<close>

fun Index :: "byte list \<Rightarrow> byte list \<Rightarrow> int" where
  \<open>Index [] sep = (if sep = [] then 0 else -1)\<close>
| \<open>Index (x # xs) sep =
     (if prefix sep (x # xs) then 0
      else let r = Index xs sep in if r < 0 then -1 else r + 1)\<close>

section \<open>The minifier: \<open>needsSpace\<close> and \<open>removeWhitespace\<close>\<close>

definition needsSpace :: "byte \<Rightarrow> bool" where
  \<open>needsSpace c \<longleftrightarrow>
     (CHR ''a'' \<le> c \<and> c \<le> CHR ''z'') \<or> (CHR ''A'' \<le> c \<and> c \<le> CHR ''Z'')
     \<or> (CHR ''0'' \<le> c \<and> c \<le> CHR ''9'') \<or> c = CHR ''_'' \<or> c = CHR ''$''\<close>

text \<open>
  The inner \<^verbatim>\<open>for\<close> loop of the \<^verbatim>\<open>'"'\<close> case: it copies the literal's body to \<open>out\<close> and
  stops with \<open>b\<close> at the closing quote. \<^verbatim>\<open>b[:i]\<close> panics for \<open>i = -1\<close>, \<^verbatim>\<open>b[0]\<close> on an
  empty slice, and \<^verbatim>\<open>b[2:]\<close> when fewer than two bytes are left (there \<^verbatim>\<open>b[:2]\<close> may
  still succeed within the capacity, but the next statement panics in any case).
\<close>

function stringLiteral :: "byte list \<Rightarrow> byte list \<Rightarrow> error + (byte list \<times> byte list)" where
  \<open>stringLiteral b out =
     (let i = IndexAny b [QUOTE, BACKSLASH] in
      if i < 0 \<or> int (length b) < i then Inl sliceOutOfRange
      else
        let out = out @ take (nat i) b; b = drop (nat i) b in
        (case b of
           [] \<Rightarrow> Inl indexOutOfRange
         | b0 # _ \<Rightarrow>
             if b0 = QUOTE then Inr (out, b)
             else if length b < 2 then Inl sliceOutOfRange
             else stringLiteral (drop 2 b) (out @ take 2 b)))\<close>
  by pat_completeness auto
termination
  by (relation \<open>measure (\<lambda>(b, out). length b)\<close>) auto

declare stringLiteral.simps [simp del]

lemma stringLiteral_length:
  \<open>stringLiteral b out = Inr (out', b') \<Longrightarrow> length b' \<le> length b\<close>
proof (induction \<open>length b\<close> arbitrary: b out rule: less_induct)
  case less
  define i where \<open>i = nat (IndexAny b [QUOTE, BACKSLASH])\<close>
  show ?case
  proof (cases \<open>drop i b\<close>)
    case Nil
    with less.prems show ?thesis
      by (subst (asm) stringLiteral.simps) (simp add: Let_def i_def split: if_splits)
  next
    case (Cons b0 bs)
    show ?thesis
    proof (cases \<open>b0 = QUOTE\<close>)
      case True
      with Cons less.prems show ?thesis
        by (subst (asm) stringLiteral.simps) (auto simp: Let_def i_def split: if_splits)
    next
      case False
      with Cons less.prems have
        rec: \<open>stringLiteral (drop 2 (drop i b)) ((out @ take i b) @ take 2 (drop i b))
                = Inr (out', b')\<close>
        by (subst (asm) stringLiteral.simps) (simp add: Let_def i_def split: if_splits)
      have \<open>length (drop 2 (drop i b)) < length b\<close>
      proof -
        from Cons have \<open>b \<noteq> []\<close> by auto
        then show ?thesis by simp
      qed
      from less.hyps [OF this rec] show ?thesis by simp
    qed
  qed
qed

lemma Index_lower: \<open>- 1 \<le> Index xs sep\<close>
  by (induction xs sep rule: Index.induct) (simp_all add: Let_def)

text \<open>
  The main loop of \<^verbatim>\<open>removeWhitespace\<close>, one call per iteration. Go evaluates \<^verbatim>\<open>||\<close> and
  \<^verbatim>\<open>&&\<close> left to right and stops early, so in the whitespace case \<^verbatim>\<open>b[1]\<close> is read
  (and can be out of range) only when \<^verbatim>\<open>needsSpace(previous)\<close> holds or \<^verbatim>\<open>previous\<close> is
  \<^verbatim>\<open>'-'\<close>. \<^verbatim>\<open>b[5:]\<close> panics when fewer than five bytes are left, \<^verbatim>\<open>b[i+4:]\<close> when
  \<open>i + 4\<close> exceeds the length (\<open>i\<close> is \<open>-1\<close> when the comment is not closed).
\<close>

function removeWhitespace_loop :: "byte \<Rightarrow> byte list \<Rightarrow> byte list \<Rightarrow> error + byte list" where
  \<open>removeWhitespace_loop previous b out =
     (case b of
        [] \<Rightarrow> Inr out
      | b0 # rest \<Rightarrow>
          if b0 = BS then
            (if length b < 5 then Inl sliceOutOfRange
             else removeWhitespace_loop previous (drop 5 b) (out @ take 5 b))
          else if b0 = SPC \<or> b0 = TAB \<or> b0 = NL then
            (if (needsSpace previous \<or> previous = CHR ''-'') \<and> rest = [] then Inl indexOutOfRange
             else if (\<not> needsSpace previous \<or> \<not> needsSpace (hd rest))
                     \<and> \<not> (previous = CHR ''-'' \<and> hd rest = CHR ''-'')
               then removeWhitespace_loop previous rest out
             else removeWhitespace_loop b0 rest (out @ [b0]))
          else if b0 = QUOTE then
            (case stringLiteral rest (out @ [QUOTE]) of
               Inl e \<Rightarrow> Inl e
             | Inr (out', b') \<Rightarrow>
                 (case b' of
                    [] \<Rightarrow> Inl indexOutOfRange
                  | c # rest' \<Rightarrow> removeWhitespace_loop c rest' (out' @ [c])))
          else if b0 = CHR ''/'' then
            (case rest of
               [] \<Rightarrow> Inl indexOutOfRange
             | b1 # _ \<Rightarrow>
                 if b1 = CHR ''*'' then
                   (let i = Index (drop 2 b) ''*/'' in
                    if int (length b) < i + 4 then Inl sliceOutOfRange
                    else removeWhitespace_loop previous (drop (nat (i + 4)) b) out)
                 else removeWhitespace_loop b0 rest (out @ [b0]))
          else removeWhitespace_loop b0 rest (out @ [b0]))\<close>
  by pat_completeness auto
termination
  apply (relation \<open>measure (\<lambda>(previous, b, out). length b)\<close>)
  apply (auto simp: Let_def dest: stringLiteral_length)
  subgoal for bs using Index_lower [of bs \<open>''*/''\<close>] by linarith
  done

declare removeWhitespace_loop.simps [simp del]

definition removeWhitespace :: "byte list \<Rightarrow> bool \<Rightarrow> error + byte list" where
  \<open>removeWhitespace b minify =
     (if \<not> minify then Inr b else removeWhitespace_loop (CHR 0x00) b [])\<close>


subsection \<open>Step equations of the string scanner\<close>

lemma IndexAny_lower: \<open>- 1 \<le> IndexAny b cs\<close>
  by (induction b) (simp_all add: Let_def)

lemma IndexAny_upper: \<open>IndexAny b cs < int (length b) \<or> IndexAny b cs = -1\<close>
  by (induction b) (auto simp: Let_def)

lemma stringLiteral_Nil: \<open>stringLiteral [] out = Inl sliceOutOfRange\<close>
  by (simp add: stringLiteral.simps)

lemma stringLiteral_quote: \<open>stringLiteral (QUOTE # cs) out = Inr (out, QUOTE # cs)\<close>
  by (simp add: stringLiteral.simps)

lemma stringLiteral_backslash:
  \<open>stringLiteral (BACKSLASH # cs) out =
     (case cs of [] \<Rightarrow> Inl sliceOutOfRange | c # cs' \<Rightarrow> stringLiteral cs' (out @ [BACKSLASH, c]))\<close>
  by (subst stringLiteral.simps) (simp split: list.splits)

lemma stringLiteral_plain:
  assumes \<open>c \<noteq> QUOTE\<close> \<open>c \<noteq> BACKSLASH\<close>
  shows \<open>stringLiteral (c # cs) out = stringLiteral cs (out @ [c])\<close>
proof (cases \<open>IndexAny cs [QUOTE, BACKSLASH] < 0\<close>)
  case True
  with assms show ?thesis
    by (subst stringLiteral.simps, subst (2) stringLiteral.simps) (simp add: Let_def)
next
  case False
  then have nn: \<open>0 \<le> IndexAny cs [QUOTE, BACKSLASH]\<close> by simp
  then have n: \<open>nat (IndexAny cs [QUOTE, BACKSLASH] + 1) = Suc (nat (IndexAny cs [QUOTE, BACKSLASH]))\<close>
    by simp
  from IndexAny_upper [of cs \<open>[QUOTE, BACKSLASH]\<close>] nn
  have up: \<open>IndexAny cs [QUOTE, BACKSLASH] < int (length cs)\<close> by auto
  from assms False up show ?thesis
    by (subst stringLiteral.simps, subst (2) stringLiteral.simps) (simp add: Let_def n)
qed

subsection \<open>String literals as the scanner sees them\<close>

text \<open>
  \<open>litBody body\<close>: \<open>body\<close> is the inside of a string literal, made of bytes other than the
  quote and the backslash and of two-byte escapes (a backslash and any byte).
  \<open>unterminated b\<close>: no unescaped quote occurs in \<open>b\<close>.
\<close>

fun litBody :: "byte list \<Rightarrow> bool" where
  \<open>litBody [] = True\<close>
| \<open>litBody [c] = (c \<noteq> QUOTE \<and> c \<noteq> BACKSLASH)\<close>
| \<open>litBody (c # d # cs) =
     (if c = QUOTE then False else if c = BACKSLASH then litBody cs else litBody (d # cs))\<close>

fun unterminated :: "byte list \<Rightarrow> bool" where
  \<open>unterminated [] = True\<close>
| \<open>unterminated [c] = (c \<noteq> QUOTE)\<close>
| \<open>unterminated (c # d # cs) =
     (if c = QUOTE then False else if c = BACKSLASH then unterminated cs
      else unterminated (d # cs))\<close>

lemma stringLiteral_closed:
  \<open>litBody body \<Longrightarrow> stringLiteral (body @ QUOTE # rest) out = Inr (out @ body, QUOTE # rest)\<close>
proof (induction body arbitrary: out rule: litBody.induct)
  case 1
  show ?case by (simp add: stringLiteral_quote)
next
  case (2 c)
  then show ?case by (simp add: stringLiteral_plain stringLiteral_quote)
next
  case (3 c d cs)
  show ?case
  proof (cases \<open>c = BACKSLASH\<close>)
    case True
    with 3 show ?thesis by (simp add: stringLiteral_backslash)
  next
    case False
    with "3.prems" have \<open>c \<noteq> QUOTE\<close> \<open>litBody (d # cs)\<close> by (auto split: if_splits)
    with False "3.IH"(2) [of \<open>out @ [c]\<close>] show ?thesis
      by (simp add: stringLiteral_plain)
  qed
qed

lemma stringLiteral_unterminated:
  \<open>unterminated b \<Longrightarrow> stringLiteral b out = Inl sliceOutOfRange\<close>
proof (induction b arbitrary: out rule: unterminated.induct)
  case 1
  show ?case by (simp add: stringLiteral_Nil)
next
  case (2 c)
  then show ?case
    by (cases \<open>c = BACKSLASH\<close>)
      (simp_all add: stringLiteral_backslash stringLiteral_plain stringLiteral_Nil)
next
  case (3 c d cs)
  show ?case
  proof (cases \<open>c = BACKSLASH\<close>)
    case True
    with 3 show ?thesis by (simp add: stringLiteral_backslash)
  next
    case False
    with "3.prems" have \<open>c \<noteq> QUOTE\<close> \<open>unterminated (d # cs)\<close> by (auto split: if_splits)
    with False "3.IH"(2) [of \<open>out @ [c]\<close>] show ?thesis
      by (simp add: stringLiteral_plain)
  qed
qed

lemma stringLiteral_result:
  \<open>stringLiteral b out = Inr (out', b') \<Longrightarrow>
     \<exists>body rest. b = body @ QUOTE # rest \<and> b' = QUOTE # rest \<and> out' = out @ body \<and> litBody body\<close>
proof (induction b arbitrary: out rule: litBody.induct)
  case 1
  then show ?case by (simp add: stringLiteral_Nil)
next
  case (2 c)
  show ?case
  proof (cases \<open>c = QUOTE\<close>)
    case True
    with 2 show ?thesis by (auto simp: stringLiteral_quote)
  next
    case False
    with 2 show ?thesis
      by (cases \<open>c = BACKSLASH\<close>)
        (simp_all add: stringLiteral_backslash stringLiteral_plain stringLiteral_Nil)
  qed
next
  case (3 c d cs)
  show ?case
  proof (cases \<open>c = QUOTE\<close>)
    case True
    with "3.prems" have \<open>b' = QUOTE # d # cs\<close> \<open>out' = out\<close>
      by (simp_all add: stringLiteral_quote)
    with True show ?thesis by (intro exI [of _ \<open>[]\<close>] exI [of _ \<open>d # cs\<close>]) simp
  next
    case nq: False
    show ?thesis
    proof (cases \<open>c = BACKSLASH\<close>)
      case True
      with "3.prems" have \<open>stringLiteral cs (out @ [BACKSLASH, d]) = Inr (out', b')\<close>
        by (simp add: stringLiteral_backslash)
      from "3.IH"(1) [OF nq True this] obtain body rest where
        \<open>cs = body @ QUOTE # rest\<close> \<open>b' = QUOTE # rest\<close> \<open>out' = (out @ [BACKSLASH, d]) @ body\<close>
        \<open>litBody body\<close> by blast
      with True show ?thesis
        by (intro exI [of _ \<open>c # d # body\<close>] exI [of _ rest]) simp
    next
      case False
      with nq "3.prems" have \<open>stringLiteral (d # cs) (out @ [c]) = Inr (out', b')\<close>
        by (simp add: stringLiteral_plain)
      from "3.IH"(2) [OF nq False this] obtain body rest where
        *: \<open>d # cs = body @ QUOTE # rest\<close> \<open>b' = QUOTE # rest\<close> \<open>out' = (out @ [c]) @ body\<close>
        \<open>litBody body\<close> by blast
      have \<open>litBody (c # body)\<close>
        using nq False *(4) by (cases body) simp_all
      with * show ?thesis
        by (intro exI [of _ \<open>c # body\<close>] exI [of _ rest]) simp
    qed
  qed
qed

lemma stringLiteral_acc:
  \<open>stringLiteral b (out @ acc) =
     (case stringLiteral b acc of Inl e \<Rightarrow> Inl e | Inr (out', b') \<Rightarrow> Inr (out @ out', b'))\<close>
proof (cases \<open>unterminated b\<close>)
  case True
  then show ?thesis by (simp add: stringLiteral_unterminated)
next
  case False
  have \<open>\<not> unterminated x \<Longrightarrow> \<exists>body rest. x = body @ QUOTE # rest \<and> litBody body\<close> for x
  proof (induction x rule: unterminated.induct)
    case 1
    then show ?case by simp
  next
    case (2 c)
    then have \<open>[c] = [] @ QUOTE # []\<close> by simp
    then show ?case using litBody.simps(1) by blast
  next
    case (3 c d cs)
    show ?case
    proof (cases \<open>c = QUOTE\<close>)
      case True
      then have \<open>c # d # cs = [] @ QUOTE # d # cs\<close> by simp
      then show ?thesis using litBody.simps(1) by blast
    next
      case nq: False
      show ?thesis
      proof (cases \<open>c = BACKSLASH\<close>)
        case True
        with nq "3.prems" "3.IH"(1) obtain body rest where
          \<open>cs = body @ QUOTE # rest\<close> \<open>litBody body\<close> by auto
        with True show ?thesis by (intro exI [of _ \<open>c # d # body\<close>] exI [of _ rest]) simp
      next
        case False
        with nq "3.prems" "3.IH"(2) obtain body rest where
          *: \<open>d # cs = body @ QUOTE # rest\<close> \<open>litBody body\<close> by auto
        have \<open>litBody (c # body)\<close> using nq False *(2) by (cases body) simp_all
        with * show ?thesis by (intro exI [of _ \<open>c # body\<close>] exI [of _ rest]) simp
      qed
    qed
  qed
  with False obtain body rest where \<open>b = body @ QUOTE # rest\<close> \<open>litBody body\<close> by blast
  then show ?thesis by (simp add: stringLiteral_closed)
qed

subsection \<open>Step equations of the main loop\<close>

lemma loop_Nil: \<open>removeWhitespace_loop previous [] out = Inr out\<close>
  by (simp add: removeWhitespace_loop.simps)

lemma loop_marker:
  \<open>removeWhitespace_loop previous (BS # rest) out =
     (if length rest < 4 then Inl sliceOutOfRange
      else removeWhitespace_loop previous (drop 4 rest) (out @ BS # take 4 rest))\<close>
  by (subst removeWhitespace_loop.simps) (simp add: numeral_eq_Suc)

lemma loop_space:
  assumes \<open>w = SPC \<or> w = TAB \<or> w = NL\<close>
  shows \<open>removeWhitespace_loop previous (w # rest) out =
     (if (needsSpace previous \<or> previous = CHR ''-'') \<and> rest = [] then Inl indexOutOfRange
      else if (\<not> needsSpace previous \<or> \<not> needsSpace (hd rest))
              \<and> \<not> (previous = CHR ''-'' \<and> hd rest = CHR ''-'')
        then removeWhitespace_loop previous rest out
      else removeWhitespace_loop w rest (out @ [w]))\<close>
  using assms by (subst removeWhitespace_loop.simps) auto

lemma loop_quote:
  \<open>removeWhitespace_loop previous (QUOTE # rest) out =
     (case stringLiteral rest (out @ [QUOTE]) of
        Inl e \<Rightarrow> Inl e
      | Inr (out', b') \<Rightarrow>
          (case b' of
             [] \<Rightarrow> Inl indexOutOfRange
           | c # rest' \<Rightarrow> removeWhitespace_loop c rest' (out' @ [c])))\<close>
  by (subst removeWhitespace_loop.simps) simp

lemma loop_slash:
  \<open>removeWhitespace_loop previous (CHR ''/'' # rest) out =
     (case rest of
        [] \<Rightarrow> Inl indexOutOfRange
      | b1 # bs \<Rightarrow>
          if b1 = CHR ''*'' then
            (let i = Index bs ''*/'' in
             if int (length bs) + 2 < i + 4 then Inl sliceOutOfRange
             else removeWhitespace_loop previous (drop (nat (i + 4)) (CHR ''/'' # rest)) out)
          else removeWhitespace_loop (CHR ''/'') rest (out @ ''/''))\<close>
  by (subst removeWhitespace_loop.simps) (simp split: list.splits)

definition plainByte :: "byte \<Rightarrow> bool" where
  \<open>plainByte c \<longleftrightarrow> c \<notin> {BS, SPC, TAB, NL, QUOTE, CHR ''/''}\<close>

lemma loop_plain:
  \<open>plainByte c \<Longrightarrow>
     removeWhitespace_loop previous (c # rest) out = removeWhitespace_loop c rest (out @ [c])\<close>
  by (subst removeWhitespace_loop.simps) (simp add: plainByte_def)

lemma needsSpace_plain: \<open>needsSpace c \<or> c = CHR ''-'' \<Longrightarrow> plainByte c\<close>
  by (auto simp: needsSpace_def plainByte_def)

lemma loop_string:
  assumes \<open>litBody body\<close>
  shows \<open>removeWhitespace_loop previous (QUOTE # body @ QUOTE # rest) out =
     removeWhitespace_loop QUOTE rest (out @ QUOTE # body @ [QUOTE])\<close>
  using assms by (simp add: loop_quote stringLiteral_closed)

lemma byte_cases:
  obtains (marker) \<open>c = BS\<close> | (space) \<open>c = SPC \<or> c = TAB \<or> c = NL\<close> | (quote) \<open>c = QUOTE\<close>
  | (slash) \<open>c = CHR ''/''\<close> | (plain) \<open>plainByte c\<close>
  by (auto simp: plainByte_def)

lemma loop_acc:
  \<open>removeWhitespace_loop previous b (out @ acc) =
     (case removeWhitespace_loop previous b acc of Inl e \<Rightarrow> Inl e | Inr out' \<Rightarrow> Inr (out @ out'))\<close>
proof (induction \<open>length b\<close> arbitrary: b previous acc rule: less_induct)
  case less
  note IH = less.hyps
  show ?case
  proof (cases b)
    case Nil
    then show ?thesis by (simp add: loop_Nil)
  next
    case (Cons b0 rest)
    show ?thesis
    proof (cases b0 rule: byte_cases)
      case marker
      have \<open>length (drop 4 rest) < length b\<close> using Cons by simp
      from IH [OF this, of previous \<open>acc @ BS # take 4 rest\<close>] show ?thesis
        by (simp add: Cons marker loop_marker)
    next
      case space
      have \<open>length rest < length b\<close> using Cons by simp
      from IH [OF this, of previous acc] IH [OF this, of b0 \<open>acc @ [b0]\<close>] show ?thesis
        by (simp add: Cons loop_space [OF space])
    next
      case quote
      show ?thesis
      proof (cases \<open>stringLiteral rest (acc @ [QUOTE])\<close>)
        case (Inl e)
        with stringLiteral_acc [of rest out \<open>acc @ [QUOTE]\<close>] show ?thesis
          by (simp add: Cons quote loop_quote)
      next
        case (Inr r)
        obtain out' b' where r: \<open>r = (out', b')\<close> by (cases r)
        show ?thesis
        proof (cases b')
          case Nil
          with Inr r stringLiteral_acc [of rest out \<open>acc @ [QUOTE]\<close>] show ?thesis
            by (simp add: Cons quote loop_quote)
        next
          case c: (Cons c rest')
          from stringLiteral_length [of rest \<open>acc @ [QUOTE]\<close> out' b'] Inr r c Cons
          have \<open>length rest' < length b\<close> by simp
          from IH [OF this, of c \<open>out' @ [c]\<close>] Inr r c
            stringLiteral_acc [of rest out \<open>acc @ [QUOTE]\<close>]
          show ?thesis by (simp add: Cons quote loop_quote)
        qed
      qed
    next
      case slash
      show ?thesis
      proof (cases rest)
        case Nil
        then show ?thesis by (simp add: Cons slash loop_slash)
      next
        case r: (Cons b1 bs)
        show ?thesis
        proof (cases \<open>b1 = CHR ''*''\<close>)
          case True
          have \<open>length (drop (nat (Index bs ''*/'' + 4)) b) < length b\<close>
            using Index_lower [of bs \<open>''*/''\<close>] Cons by simp
          from IH [OF this, of previous acc] show ?thesis
            by (simp add: Cons slash r True loop_slash Let_def)
        next
          case False
          have \<open>length rest < length b\<close> using Cons by simp
          from IH [OF this, of b0 \<open>acc @ [b0]\<close>] False show ?thesis
            by (simp add: Cons slash r loop_slash)
        qed
      qed
    next
      case plain
      have \<open>length rest < length b\<close> using Cons by simp
      from IH [OF this, of b0 \<open>acc @ [b0]\<close>] show ?thesis
        by (simp add: Cons loop_plain [OF plain])
    qed
  qed
qed

lemma loop_acc_Nil:
  \<open>removeWhitespace_loop previous b out =
     (case removeWhitespace_loop previous b [] of Inl e \<Rightarrow> Inl e | Inr out' \<Rightarrow> Inr (out @ out'))\<close>
  using loop_acc [of previous b out \<open>[]\<close>] by simp

lemma loop_acc_InrD:
  \<open>removeWhitespace_loop previous b acc = Inr out \<Longrightarrow>
     \<exists>out'. removeWhitespace_loop previous b [] = Inr out' \<and> out = acc @ out'\<close>
  by (subst (asm) loop_acc_Nil) (auto split: sum.splits)

lemma loop_acc_InrI:
  \<open>removeWhitespace_loop previous b [] = Inr out' \<Longrightarrow>
     removeWhitespace_loop previous b acc = Inr (acc @ out')\<close>
  by (subst loop_acc_Nil) simp

text \<open>
  \<open>codeSlashOk out\<close>: reading \<open>out\<close> as the loop does, with the four bytes after a marker's
  sentinel and the inside of string literals skipped, no \<open>/\<close> is the last byte or directly
  followed by \<open>*\<close>. \<open>inLiteral\<close> is the same reading started inside a string literal.
\<close>

fun codeSlashOk :: "byte list \<Rightarrow> bool"
  and inLiteral :: "byte list \<Rightarrow> bool" where
  \<open>codeSlashOk [] = True\<close>
| \<open>codeSlashOk (c # cs) =
     (if c = BS then codeSlashOk (drop 4 cs)
      else if c = QUOTE then inLiteral cs
      else if c = CHR ''/'' then (case cs of [] \<Rightarrow> False | d # _ \<Rightarrow> d \<noteq> CHR ''*'' \<and> codeSlashOk cs)
      else codeSlashOk cs)\<close>
| \<open>inLiteral [] = True\<close>
| \<open>inLiteral (c # cs) =
     (if c = QUOTE then codeSlashOk cs
      else if c = BACKSLASH then inLiteral (drop 1 cs)
      else inLiteral cs)\<close>

lemma inLiteral_body: \<open>litBody body \<Longrightarrow> inLiteral (body @ QUOTE # rest) = codeSlashOk rest\<close>
  by (induction body rule: litBody.induct) (simp_all split: if_splits)

lemma codeSlashOk_marker:
  \<open>length payload = 4 \<Longrightarrow> codeSlashOk (BS # payload @ rest) = codeSlashOk rest\<close>
  by simp

lemma codeSlashOk_literal:
  \<open>litBody body \<Longrightarrow> codeSlashOk (QUOTE # body @ QUOTE # rest) = codeSlashOk rest\<close>
  by (simp add: inLiteral_body)

lemma codeSlashOk_plain: \<open>plainByte c \<Longrightarrow> codeSlashOk (c # cs) = codeSlashOk cs\<close>
  by (simp add: plainByte_def)

lemma codeSlashOk_space:
  \<open>w = SPC \<or> w = TAB \<or> w = NL \<Longrightarrow> codeSlashOk (w # cs) = codeSlashOk cs\<close>
  by auto

lemma loop_plain_hd:
  assumes \<open>plainByte c\<close> \<open>removeWhitespace_loop previous (c # rest) [] = Inr out\<close>
  shows \<open>\<exists>out'. out = c # out'\<close>
  using assms loop_acc_InrD [of c rest \<open>[c]\<close> out] by (auto simp: loop_plain)

lemma loop_length:
  \<open>removeWhitespace_loop previous b [] = Inr out \<Longrightarrow> length out \<le> length b\<close>
proof (induction \<open>length b\<close> arbitrary: b previous out rule: less_induct)
  case less
  note IH = less.hyps and run = less.prems(1)
  show ?case
  proof (cases b)
    case Nil
    with run show ?thesis by (simp add: loop_Nil)
  next
    case (Cons b0 rest)
    show ?thesis
    proof (cases b0 rule: byte_cases)
      case marker
      from run have len: \<open>\<not> length rest < 4\<close>
        and r: \<open>removeWhitespace_loop previous (drop 4 rest) (BS # take 4 rest) = Inr out\<close>
        by (auto simp: Cons marker loop_marker split: if_splits)
      from loop_acc_InrD [OF r] obtain out' where
        o: \<open>removeWhitespace_loop previous (drop 4 rest) [] = Inr out'\<close>
        \<open>out = (BS # take 4 rest) @ out'\<close> by blast
      have \<open>length (drop 4 rest) < length b\<close> using Cons by simp
      from IH [OF this o(1)] len show ?thesis by (simp add: o(2) Cons)
    next
      case space
      have short: \<open>length rest < length b\<close> using Cons by simp
      show ?thesis
      proof (cases \<open>(\<not> needsSpace previous \<or> \<not> needsSpace (hd rest))
              \<and> \<not> (previous = CHR ''-'' \<and> hd rest = CHR ''-'')\<close>)
        case True
        with run have \<open>removeWhitespace_loop previous rest [] = Inr out\<close>
          by (auto simp: Cons loop_space [OF space] split: if_splits)
        from IH [OF short this] show ?thesis by (simp add: Cons)
      next
        case False
        with run have r: \<open>removeWhitespace_loop b0 rest [b0] = Inr out\<close>
          by (auto simp: Cons loop_space [OF space] split: if_splits)
        from loop_acc_InrD [OF r] obtain out' where
          o: \<open>removeWhitespace_loop b0 rest [] = Inr out'\<close> \<open>out = [b0] @ out'\<close> by blast
        from IH [OF short o(1)] show ?thesis by (simp add: o(2) Cons)
      qed
    next
      case quote
      from run obtain acc b' where
        sl: \<open>stringLiteral rest [QUOTE] = Inr (acc, b')\<close>
        by (auto simp: Cons quote loop_quote split: sum.splits)
      from stringLiteral_result [OF sl] obtain body rest' where
        b: \<open>rest = body @ QUOTE # rest'\<close> \<open>b' = QUOTE # rest'\<close> \<open>acc = [QUOTE] @ body\<close>
        \<open>litBody body\<close> by blast
      from run have r: \<open>removeWhitespace_loop QUOTE rest' (QUOTE # body @ [QUOTE]) = Inr out\<close>
        using loop_string [OF b(4), of previous rest' \<open>[]\<close>] by (simp add: Cons quote b(1))
      from loop_acc_InrD [OF r] obtain out' where
        o: \<open>removeWhitespace_loop QUOTE rest' [] = Inr out'\<close>
        \<open>out = (QUOTE # body @ [QUOTE]) @ out'\<close> by blast
      have \<open>length rest' < length b\<close> using Cons b(1) by simp
      from IH [OF this o(1)] show ?thesis by (simp add: o(2) Cons b(1))
    next
      case slash
      from run obtain b1 bs where rest: \<open>rest = b1 # bs\<close>
        by (cases rest) (auto simp: Cons slash loop_slash)
      show ?thesis
      proof (cases \<open>b1 = CHR ''*''\<close>)
        case True
        with run have r:
          \<open>removeWhitespace_loop previous (drop (nat (Index bs ''*/'' + 4)) b) [] = Inr out\<close>
          by (auto simp: Cons slash rest loop_slash Let_def split: if_splits)
        have \<open>length (drop (nat (Index bs ''*/'' + 4)) b) < length b\<close>
          using Index_lower [of bs \<open>''*/''\<close>] Cons by simp
        from IH [OF this r] show ?thesis by simp
      next
        case False
        with run have r: \<open>removeWhitespace_loop (CHR ''/'') rest ''/'' = Inr out\<close>
          by (simp add: Cons slash rest loop_slash)
        from loop_acc_InrD [OF r] obtain out' where
          o: \<open>removeWhitespace_loop (CHR ''/'') rest [] = Inr out'\<close> \<open>out = ''/'' @ out'\<close>
          by blast
        have short: \<open>length rest < length b\<close> using Cons by simp
        from IH [OF short o(1)] show ?thesis by (simp add: o(2) Cons)
      qed
    next
      case plain
      from run have r: \<open>removeWhitespace_loop b0 rest [b0] = Inr out\<close>
        by (simp add: Cons loop_plain [OF plain])
      from loop_acc_InrD [OF r] obtain out' where
        o: \<open>removeWhitespace_loop b0 rest [] = Inr out'\<close> \<open>out = [b0] @ out'\<close> by blast
      have short: \<open>length rest < length b\<close> using Cons by simp
      from IH [OF short o(1)] show ?thesis by (simp add: o(2) Cons)
    qed
  qed
qed

lemma loop_comment_shrinks:
  \<open>removeWhitespace_loop previous (CHR ''/'' # CHR ''*'' # bs) [] = Inr out \<Longrightarrow>
     length out < length bs\<close>
proof -
  assume run: \<open>removeWhitespace_loop previous (CHR ''/'' # CHR ''*'' # bs) [] = Inr out\<close>
  then have r:
    \<open>removeWhitespace_loop previous (drop (nat (Index bs ''*/'' + 4)) (CHR ''/'' # CHR ''*'' # bs)) []
       = Inr out\<close>
    and le: \<open>\<not> int (length bs) + 2 < Index bs ''*/'' + 4\<close>
    by (auto simp: loop_slash Let_def split: if_splits)
  from loop_length [OF r] Index_lower [of bs \<open>''*/''\<close>] le
  show ?thesis by simp
qed

lemma loop_idem_iff:
  \<open>removeWhitespace_loop previous b [] = Inr out \<Longrightarrow>
     removeWhitespace_loop previous out [] = Inr out \<longleftrightarrow> codeSlashOk out\<close>
proof (induction \<open>length b\<close> arbitrary: b previous out rule: less_induct)
  case less
  note IH = less.hyps and run = less.prems(1)
  show ?case
  proof (cases b)
    case Nil
    with run show ?thesis by (simp add: loop_Nil)
  next
    case (Cons b0 rest)
    show ?thesis
    proof (cases b0 rule: byte_cases)
      case marker
      from run have len: \<open>\<not> length rest < 4\<close>
        and r: \<open>removeWhitespace_loop previous (drop 4 rest) (BS # take 4 rest) = Inr out\<close>
        by (auto simp: Cons marker loop_marker split: if_splits)
      from loop_acc_InrD [OF r] obtain out' where
        o: \<open>removeWhitespace_loop previous (drop 4 rest) [] = Inr out'\<close>
        \<open>out = (BS # take 4 rest) @ out'\<close> by blast
      have \<open>length (drop 4 rest) < length b\<close> using Cons by simp
      note ih = IH [OF this o(1)]
      have \<open>removeWhitespace_loop previous out [] =
          (case removeWhitespace_loop previous out' [] of
             Inl e \<Rightarrow> Inl e | Inr r \<Rightarrow> Inr ((BS # take 4 rest) @ r))\<close>
        using len loop_acc_Nil [of previous out' \<open>BS # take 4 rest\<close>]
        by (simp add: o(2) loop_marker)
      then have \<open>removeWhitespace_loop previous out [] = Inr out
          \<longleftrightarrow> removeWhitespace_loop previous out' [] = Inr out'\<close>
        by (auto simp: o(2) split: sum.splits)
      moreover have \<open>codeSlashOk out = codeSlashOk out'\<close>
        using len by (simp add: o(2))
      ultimately show ?thesis using ih by simp
    next
      case space
      have short: \<open>length rest < length b\<close> using Cons by simp
      show ?thesis
      proof (cases \<open>(\<not> needsSpace previous \<or> \<not> needsSpace (hd rest))
              \<and> \<not> (previous = CHR ''-'' \<and> hd rest = CHR ''-'')\<close>)
        case True
        with run have \<open>removeWhitespace_loop previous rest [] = Inr out\<close>
          by (auto simp: Cons loop_space [OF space] split: if_splits)
        from IH [OF short this] show ?thesis .
      next
        case False
        with run have ne: \<open>rest \<noteq> []\<close>
          and r: \<open>removeWhitespace_loop b0 rest [b0] = Inr out\<close>
          by (auto simp: Cons loop_space [OF space] split: if_splits)
        from loop_acc_InrD [OF r] obtain out' where
          o: \<open>removeWhitespace_loop b0 rest [] = Inr out'\<close> \<open>out = [b0] @ out'\<close> by blast
        from ne obtain b1 rest' where rest: \<open>rest = b1 # rest'\<close> by (cases rest) auto
        from False rest have \<open>needsSpace b1 \<or> b1 = CHR ''-''\<close> by auto
        from loop_plain_hd [OF needsSpace_plain [OF this] o(1) [unfolded rest]]
        obtain out'' where o'': \<open>out' = b1 # out''\<close> by blast
        note ih = IH [OF short o(1)]
        have \<open>removeWhitespace_loop previous out [] =
            (case removeWhitespace_loop b0 out' [] of
               Inl e \<Rightarrow> Inl e | Inr r \<Rightarrow> Inr ([b0] @ r))\<close>
          using False rest o'' loop_acc_Nil [of b0 out' \<open>[b0]\<close>]
          by (auto simp: o(2) loop_space [OF space])
        then have \<open>removeWhitespace_loop previous out [] = Inr out
            \<longleftrightarrow> removeWhitespace_loop b0 out' [] = Inr out'\<close>
          by (auto simp: o(2) split: sum.splits)
        moreover have \<open>codeSlashOk out = codeSlashOk out'\<close>
          using codeSlashOk_space [OF space] by (simp add: o(2))
        ultimately show ?thesis using ih by simp
      qed
    next
      case quote
      from run obtain acc b' where
        sl: \<open>stringLiteral rest [QUOTE] = Inr (acc, b')\<close>
        by (auto simp: Cons quote loop_quote split: sum.splits)
      from stringLiteral_result [OF sl] obtain body rest' where
        b: \<open>rest = body @ QUOTE # rest'\<close> \<open>b' = QUOTE # rest'\<close> \<open>acc = [QUOTE] @ body\<close>
        \<open>litBody body\<close> by blast
      from run have r: \<open>removeWhitespace_loop QUOTE rest' (QUOTE # body @ [QUOTE]) = Inr out\<close>
        using loop_string [OF b(4), of previous rest' \<open>[]\<close>] by (simp add: Cons quote b(1))
      from loop_acc_InrD [OF r] obtain out' where
        o: \<open>removeWhitespace_loop QUOTE rest' [] = Inr out'\<close>
        \<open>out = (QUOTE # body @ [QUOTE]) @ out'\<close> by blast
      have \<open>length rest' < length b\<close> using Cons b(1) by simp
      note ih = IH [OF this o(1)]
      have \<open>removeWhitespace_loop previous out [] =
          (case removeWhitespace_loop QUOTE out' [] of
             Inl e \<Rightarrow> Inl e | Inr r \<Rightarrow> Inr ((QUOTE # body @ [QUOTE]) @ r))\<close>
        using loop_string [OF b(4), of previous out' \<open>[]\<close>]
          loop_acc_Nil [of QUOTE out' \<open>QUOTE # body @ [QUOTE]\<close>]
        by (simp add: o(2))
      then have \<open>removeWhitespace_loop previous out [] = Inr out
          \<longleftrightarrow> removeWhitespace_loop QUOTE out' [] = Inr out'\<close>
        by (auto simp: o(2) split: sum.splits)
      moreover have \<open>codeSlashOk out = codeSlashOk out'\<close>
        using codeSlashOk_literal [OF b(4), of out'] by (simp add: o(2))
      ultimately show ?thesis using ih by simp
    next
      case slash
      from run obtain b1 bs where rest: \<open>rest = b1 # bs\<close>
        by (cases rest) (auto simp: Cons slash loop_slash)
      show ?thesis
      proof (cases \<open>b1 = CHR ''*''\<close>)
        case True
        with run have r:
          \<open>removeWhitespace_loop previous (drop (nat (Index bs ''*/'' + 4)) b) [] = Inr out\<close>
          by (auto simp: Cons slash rest loop_slash Let_def split: if_splits)
        have \<open>length (drop (nat (Index bs ''*/'' + 4)) b) < length b\<close>
          using Index_lower [of bs \<open>''*/''\<close>] Cons by simp
        from IH [OF this r] show ?thesis .
      next
        case False
        with run have r: \<open>removeWhitespace_loop (CHR ''/'') rest ''/'' = Inr out\<close>
          by (simp add: Cons slash rest loop_slash)
        from loop_acc_InrD [OF r] obtain out' where
          o: \<open>removeWhitespace_loop (CHR ''/'') rest [] = Inr out'\<close> \<open>out = ''/'' @ out'\<close>
          by blast
        have short: \<open>length rest < length b\<close> using Cons by simp
        note ih = IH [OF short o(1)]
        show ?thesis
        proof (cases out')
          case Nil
          then show ?thesis by (simp add: o(2) loop_slash)
        next
          case d: (Cons d ds)
          show ?thesis
          proof (cases \<open>d = CHR ''*''\<close>)
            case True
            have \<open>removeWhitespace_loop previous out [] \<noteq> Inr out\<close>
            proof
              assume \<open>removeWhitespace_loop previous out [] = Inr out\<close>
              from loop_comment_shrinks [OF this [unfolded o(2) d True, simplified]]
              show False by (simp add: o(2) d)
            qed
            then show ?thesis by (simp add: o(2) d True)
          next
            case nstar: False
            have \<open>removeWhitespace_loop previous out [] =
                (case removeWhitespace_loop (CHR ''/'') out' [] of
                   Inl e \<Rightarrow> Inl e | Inr r \<Rightarrow> Inr (''/'' @ r))\<close>
              using nstar d loop_acc_Nil [of \<open>CHR ''/''\<close> out' \<open>''/''\<close>]
              by (simp add: o(2) loop_slash)
            then have \<open>removeWhitespace_loop previous out [] = Inr out
                \<longleftrightarrow> removeWhitespace_loop (CHR ''/'') out' [] = Inr out'\<close>
              by (auto simp: o(2) split: sum.splits)
            moreover have \<open>codeSlashOk out = codeSlashOk out'\<close>
              using nstar d by (simp add: o(2))
            ultimately show ?thesis using ih by simp
          qed
        qed
      qed
    next
      case plain
      from run have r: \<open>removeWhitespace_loop b0 rest [b0] = Inr out\<close>
        by (simp add: Cons loop_plain [OF plain])
      from loop_acc_InrD [OF r] obtain out' where
        o: \<open>removeWhitespace_loop b0 rest [] = Inr out'\<close> \<open>out = [b0] @ out'\<close> by blast
      have short: \<open>length rest < length b\<close> using Cons by simp
      note ih = IH [OF short o(1)]
      have \<open>removeWhitespace_loop previous out [] =
          (case removeWhitespace_loop b0 out' [] of
             Inl e \<Rightarrow> Inl e | Inr r \<Rightarrow> Inr ([b0] @ r))\<close>
        using loop_acc_Nil [of b0 out' \<open>[b0]\<close>]
        by (simp add: o(2) loop_plain [OF plain])
      then have \<open>removeWhitespace_loop previous out [] = Inr out
          \<longleftrightarrow> removeWhitespace_loop b0 out' [] = Inr out'\<close>
        by (auto simp: o(2) split: sum.splits)
      moreover have \<open>codeSlashOk out = codeSlashOk out'\<close>
        using codeSlashOk_plain [OF plain] by (simp add: o(2))
      ultimately show ?thesis using ih by simp
    qed
  qed
qed

lemma loop_plain_run:
  \<open>\<forall>c\<in>set bs. plainByte c \<Longrightarrow>
     removeWhitespace_loop previous (bs @ tail) out =
       removeWhitespace_loop (last (previous # bs)) tail (out @ bs)\<close>
  by (induction bs arbitrary: previous out) (simp_all add: loop_plain)

lemma loop_last_space:
  assumes \<open>w = SPC \<or> w = TAB \<or> w = NL\<close>
  shows \<open>removeWhitespace_loop previous [w] out =
     (if needsSpace previous \<or> previous = CHR ''-'' then Inl indexOutOfRange else Inr out)\<close>
  by (auto simp: loop_space [OF assms] loop_Nil)

lemma loop_unterminated:
  \<open>unterminated body \<Longrightarrow>
     removeWhitespace_loop previous (QUOTE # body) out = Inl sliceOutOfRange\<close>
  by (simp add: loop_quote stringLiteral_unterminated)

text \<open>
  C8 (as amended). When the first pass returns \<open>out\<close>, a second pass returns \<open>out\<close> again
  exactly when \<open>codeSlashOk out\<close> holds: no \<open>/\<close> of \<open>out\<close> outside string literals and
  marker payloads is the last byte or directly followed by \<open>*\<close>. Otherwise the second pass
  panics or returns something else. A string literal reached by the loop is copied to the
  output byte for byte, quotes included, and so is a marker with its four payload bytes;
  the marker leaves \<open>previous\<close> as it is, and the literal leaves it at the closing quote.
  Without \<open>minify\<close> the input is returned as it is.
\<close>

theorem removeWhitespace_idempotent:
  \<open>(removeWhitespace b True = Inr out \<longrightarrow>
      (removeWhitespace out True = Inr out \<longleftrightarrow> codeSlashOk out))
   \<and> (litBody body \<longrightarrow>
        removeWhitespace_loop previous (QUOTE # body @ QUOTE # rest) acc =
          (case removeWhitespace_loop QUOTE rest [] of
             Inl e \<Rightarrow> Inl e
           | Inr out' \<Rightarrow> Inr (acc @ QUOTE # body @ QUOTE # out')))
   \<and> (length payload = 4 \<longrightarrow>
        removeWhitespace_loop previous (BS # payload @ rest) acc =
          (case removeWhitespace_loop previous rest [] of
             Inl e \<Rightarrow> Inl e
           | Inr out' \<Rightarrow> Inr (acc @ BS # payload @ out')))
   \<and> removeWhitespace b False = Inr b\<close>
proof (intro conjI impI)
  assume \<open>removeWhitespace b True = Inr out\<close>
  then show \<open>removeWhitespace out True = Inr out \<longleftrightarrow> codeSlashOk out\<close>
    using loop_idem_iff [of \<open>CHR 0x00\<close> b out] by (simp add: removeWhitespace_def)
next
  assume \<open>litBody body\<close>
  from loop_string [OF this, of previous rest acc]
    loop_acc_Nil [of QUOTE rest \<open>acc @ QUOTE # body @ [QUOTE]\<close>]
  show \<open>removeWhitespace_loop previous (QUOTE # body @ QUOTE # rest) acc =
          (case removeWhitespace_loop QUOTE rest [] of
             Inl e \<Rightarrow> Inl e
           | Inr out' \<Rightarrow> Inr (acc @ QUOTE # body @ QUOTE # out'))\<close>
    by (simp split: sum.splits)
next
  assume \<open>length payload = 4\<close>
  with loop_acc_Nil [of previous rest \<open>acc @ BS # payload\<close>]
  show \<open>removeWhitespace_loop previous (BS # payload @ rest) acc =
          (case removeWhitespace_loop previous rest [] of
             Inl e \<Rightarrow> Inl e
           | Inr out' \<Rightarrow> Inr (acc @ BS # payload @ out'))\<close>
    by (simp add: loop_marker split: sum.splits)
next
  show \<open>removeWhitespace b False = Inr b\<close> by (simp add: removeWhitespace_def)
qed

lemma minify_example: \<open>removeWhitespace ''foo ; bar'' True = Inr ''foo;bar''\<close>
  by (simp add: removeWhitespace_def removeWhitespace_loop.simps needsSpace_def)

lemma minify_literal_example:
  \<open>removeWhitespace (''x = '' @ QUOTE # ''/*'' @ QUOTE # '' ;'') True =
     Inr (''x='' @ QUOTE # ''/*'' @ QUOTE # '';'')\<close>
  by (simp add: removeWhitespace_def removeWhitespace_loop.simps stringLiteral.simps
      needsSpace_def)

theorem removeWhitespace_idempotent_witness:
  \<open>removeWhitespace ''foo ; bar'' True = Inr ''foo;bar'' \<and> codeSlashOk ''foo;bar''
   \<and> removeWhitespace ''foo;bar'' True = Inr ''foo;bar''
   \<and> removeWhitespace (''x = '' @ QUOTE # ''/*'' @ QUOTE # '' ;'') True =
        Inr (''x='' @ QUOTE # ''/*'' @ QUOTE # '';'')
   \<and> codeSlashOk (''x='' @ QUOTE # ''/*'' @ QUOTE # '';'')
   \<and> removeWhitespace (''x='' @ QUOTE # ''/*'' @ QUOTE # '';'') True =
        Inr (''x='' @ QUOTE # ''/*'' @ QUOTE # '';'')
   \<and> removeWhitespace ''/ **/x'' True = Inr ''/**/x'' \<and> \<not> codeSlashOk ''/**/x''
   \<and> removeWhitespace ''/**/x'' True \<noteq> Inr ''/**/x''
   \<and> litBody ''a  b''
   \<and> removeWhitespace_loop (CHR ''='') (QUOTE # ''a  b'' @ QUOTE # '' ;'') ''x='' =
        Inr (''x='' @ QUOTE # ''a  b'' @ QUOTE # '';'')
   \<and> length [CHR 0x00, CHR 0x00, CHR 0x01, SPC] = 4
   \<and> removeWhitespace_loop (CHR ''a'') (BS # [CHR 0x00, CHR 0x00, CHR 0x01, SPC] @ '' b'') ''a'' =
        Inr (''a'' @ BS # [CHR 0x00, CHR 0x00, CHR 0x01, SPC] @ '' b'')\<close>
proof -
  let ?lit = \<open>''x='' @ QUOTE # ''/*'' @ QUOTE # '';''\<close>
  have h1: \<open>removeWhitespace ''foo ; bar'' True = Inr ''foo;bar''\<close>
    by (rule minify_example)
  have k1: \<open>codeSlashOk ''foo;bar''\<close> by simp
  have h1': \<open>removeWhitespace (''x = '' @ QUOTE # ''/*'' @ QUOTE # '' ;'') True = Inr ?lit\<close>
    by (rule minify_literal_example)
  have k1': \<open>codeSlashOk ?lit\<close> by simp
  have h1'': \<open>removeWhitespace ''/ **/x'' True = Inr ''/**/x''\<close>
    by (simp add: removeWhitespace_def removeWhitespace_loop.simps needsSpace_def)
  have k1'': \<open>\<not> codeSlashOk ''/**/x''\<close> by simp
  have h2: \<open>litBody ''a  b''\<close> by simp
  have h3: \<open>length [CHR 0x00, CHR 0x00, CHR 0x01, SPC] = 4\<close> by simp
  have r2: \<open>removeWhitespace_loop QUOTE '' ;'' [] = Inr '';''\<close>
    by (simp add: removeWhitespace_loop.simps needsSpace_def)
  have r3: \<open>removeWhitespace_loop (CHR ''a'') '' b'' [] = Inr '' b''\<close>
    by (simp add: removeWhitespace_loop.simps needsSpace_def)
  note t = removeWhitespace_idempotent
    [of \<open>''foo ; bar''\<close> \<open>''foo;bar''\<close> \<open>''a  b''\<close> \<open>CHR ''=''\<close> \<open>'' ;''\<close> \<open>''x=''\<close>
      \<open>[CHR 0x00, CHR 0x00, CHR 0x01, SPC]\<close>]
  from t [THEN conjunct1, rule_format, OF h1] k1
  have c1: \<open>removeWhitespace ''foo;bar'' True = Inr ''foo;bar''\<close> by (rule iffD2)
  from removeWhitespace_idempotent
    [of \<open>''x = '' @ QUOTE # ''/*'' @ QUOTE # '' ;''\<close> ?lit, THEN conjunct1, rule_format, OF h1'] k1'
  have c1': \<open>removeWhitespace ?lit True = Inr ?lit\<close> by (rule iffD2)
  from removeWhitespace_idempotent
    [of \<open>''/ **/x''\<close> \<open>''/**/x''\<close>, THEN conjunct1, rule_format, OF h1''] k1''
  have c1'': \<open>removeWhitespace ''/**/x'' True \<noteq> Inr ''/**/x''\<close> by blast
  from t [THEN conjunct2, THEN conjunct1, rule_format, OF h2] r2
  have c2: \<open>removeWhitespace_loop (CHR ''='') (QUOTE # ''a  b'' @ QUOTE # '' ;'') ''x='' =
        Inr (''x='' @ QUOTE # ''a  b'' @ QUOTE # '';'')\<close> by simp
  from removeWhitespace_idempotent
    [of \<open>''foo ; bar''\<close> \<open>''foo;bar''\<close> \<open>''a  b''\<close> \<open>CHR ''a''\<close> \<open>'' b''\<close> \<open>''a''\<close>
      \<open>[CHR 0x00, CHR 0x00, CHR 0x01, SPC]\<close>,
      THEN conjunct2, THEN conjunct2, THEN conjunct1, rule_format, OF h3] r3
  have c3: \<open>removeWhitespace_loop (CHR ''a'') (BS # [CHR 0x00, CHR 0x00, CHR 0x01, SPC] @ '' b'') ''a'' =
        Inr (''a'' @ BS # [CHR 0x00, CHR 0x00, CHR 0x01, SPC] @ '' b'')\<close> by simp
  from h1 k1 c1 h1' k1' c1' h1'' k1'' c1'' h2 c2 h3 c3 show ?thesis by blast
qed

theorem removeWhitespace_idempotent_counterexample:
  \<open>removeWhitespace ''/ **/x'' True = Inr ''/**/x'' \<and> removeWhitespace ''/**/x'' True = Inr ''x''
   \<and> removeWhitespace ''/ '' True = Inr ''/'' \<and> removeWhitespace ''/'' True = Inl indexOutOfRange\<close>
  by (simp add: removeWhitespace_def removeWhitespace_loop.simps needsSpace_def)

text \<open>
  C10 (as amended). The function is partial. A whitespace byte that is the last byte
  panics with an index out of range exactly when the byte copied before it is
  identifier-like or \<open>-\<close>; otherwise it is dropped and the call returns. A quote reached by
  the loop with no unescaped quote after it panics with a slice out of range.
\<close>

theorem removeWhitespace_partial:
  \<open>((w = SPC \<or> w = TAB \<or> w = NL) \<longrightarrow>
       removeWhitespace_loop previous [w] out =
         (if needsSpace previous \<or> previous = CHR ''-'' then Inl indexOutOfRange else Inr out))
   \<and> ((w = SPC \<or> w = TAB \<or> w = NL) \<and> (\<forall>c\<in>set bs. plainByte c) \<longrightarrow>
       removeWhitespace (bs @ [w]) True =
         (if needsSpace (last (CHR 0x00 # bs)) \<or> last (CHR 0x00 # bs) = CHR ''-''
          then Inl indexOutOfRange else Inr bs))
   \<and> (unterminated body \<longrightarrow>
       removeWhitespace_loop previous (QUOTE # body) out = Inl sliceOutOfRange)
   \<and> (unterminated body \<and> (\<forall>c\<in>set bs. plainByte c) \<longrightarrow>
       removeWhitespace (bs @ QUOTE # body) True = Inl sliceOutOfRange)\<close>
  by (simp add: loop_last_space loop_unterminated removeWhitespace_def loop_plain_run)

theorem removeWhitespace_partial_witness:
  \<open>removeWhitespace ''a '' True = Inl indexOutOfRange
   \<and> removeWhitespace ''a- '' True = Inl indexOutOfRange
   \<and> removeWhitespace ''a; '' True = Inr ''a;''
   \<and> removeWhitespace_loop (CHR ''a'') [NL] ''a'' = Inl indexOutOfRange
   \<and> unterminated [CHR ''a'', BACKSLASH, QUOTE]
   \<and> removeWhitespace (''x='' @ QUOTE # [CHR ''a'', BACKSLASH, QUOTE]) True = Inl sliceOutOfRange
   \<and> removeWhitespace_loop (CHR ''='') (QUOTE # [CHR ''a'', BACKSLASH, QUOTE]) ''x='' =
         Inl sliceOutOfRange\<close>
proof -
  have p: \<open>\<forall>c\<in>set ''a''. plainByte c\<close> \<open>\<forall>c\<in>set ''a-''. plainByte c\<close>
    \<open>\<forall>c\<in>set ''a;''. plainByte c\<close> \<open>\<forall>c\<in>set ''x=''. plainByte c\<close>
    by (simp_all add: plainByte_def)
  have u: \<open>unterminated [CHR ''a'', BACKSLASH, QUOTE]\<close> by simp
  have w: \<open>SPC = SPC \<or> SPC = TAB \<or> SPC = NL\<close> \<open>NL = SPC \<or> NL = TAB \<or> NL = NL\<close> by simp_all
  note t = removeWhitespace_partial
  from t [of SPC _ _ \<open>''a''\<close>, THEN conjunct2, THEN conjunct1, rule_format, OF conjI [OF w(1) p(1)]]
  have c1: \<open>removeWhitespace ''a '' True = Inl indexOutOfRange\<close>
    by (simp add: needsSpace_def)
  from t [of SPC _ _ \<open>''a-''\<close>, THEN conjunct2, THEN conjunct1, rule_format, OF conjI [OF w(1) p(2)]]
  have c2: \<open>removeWhitespace ''a- '' True = Inl indexOutOfRange\<close>
    by (simp add: needsSpace_def)
  from t [of SPC _ _ \<open>''a;''\<close>, THEN conjunct2, THEN conjunct1, rule_format, OF conjI [OF w(1) p(3)]]
  have c3: \<open>removeWhitespace ''a; '' True = Inr ''a;''\<close>
    by (simp add: needsSpace_def)
  from t [of NL \<open>CHR ''a''\<close> \<open>''a''\<close>, THEN conjunct1, rule_format, OF w(2)]
  have c4: \<open>removeWhitespace_loop (CHR ''a'') [NL] ''a'' = Inl indexOutOfRange\<close>
    by (simp add: needsSpace_def)
  from t [of _ _ _ \<open>''x=''\<close> \<open>[CHR ''a'', BACKSLASH, QUOTE]\<close>,
      THEN conjunct2, THEN conjunct2, THEN conjunct2, rule_format, OF conjI [OF u p(4)]]
  have c5: \<open>removeWhitespace (''x='' @ QUOTE # [CHR ''a'', BACKSLASH, QUOTE]) True
      = Inl sliceOutOfRange\<close> .
  from t [of _ \<open>CHR ''=''\<close> \<open>''x=''\<close> _ \<open>[CHR ''a'', BACKSLASH, QUOTE]\<close>,
      THEN conjunct2, THEN conjunct2, THEN conjunct1, rule_format, OF u]
  have c6: \<open>removeWhitespace_loop (CHR ''='') (QUOTE # [CHR ''a'', BACKSLASH, QUOTE]) ''x='' =
         Inl sliceOutOfRange\<close> .
  from c1 c2 c3 c4 u c5 c6 show ?thesis by blast
qed

theorem removeWhitespace_partial_counterexample:
  \<open>removeWhitespace [CHR '';'', NL] True = Inr '';''
   \<and> removeWhitespace [BS, CHR ''a'', CHR ''b'', CHR ''c'', SPC] True
       = Inr [BS, CHR ''a'', CHR ''b'', CHR ''c'', SPC]\<close>
  by (simp add: removeWhitespace_def removeWhitespace_loop.simps needsSpace_def)


section \<open>Guarded index access: \<open>rangeCheck\<close>\<close>

text \<open>
  \<^verbatim>\<open>func rangeCheck(pattern string, constantIndex, array bool) string\<close>
  (compiler/utils.go). The result is a format pattern in which \<open>%1e\<close> stands for the
  container and \<open>%2f\<close> for the index.
\<close>

definition rangeCheck :: "string \<Rightarrow> bool \<Rightarrow> bool \<Rightarrow> string" where
  \<open>rangeCheck pattern constantIndex array =
     (if constantIndex \<and> array then pattern
      else
        let lengthProp = (if array then ''length'' else ''$length'');
            check = ''%2f >= %1e.'' @ lengthProp;
            check = (if \<not> constantIndex then ''(%2f < 0 || '' @ check @ '')'' else check)
        in ''('' @ check @ '' ? $throwRuntimeError("index out of range") : '' @ pattern @ '')'')\<close>

text \<open>
  C5 (as amended). The bare pattern is returned exactly for a constant index into a
  fixed-length array. In every other combination the result is the conditional
  \<open>(guard ? $throwRuntimeError("index out of range") : pattern)\<close>. The guard compares the
  index against \<open>length\<close> (arrays) or \<open>$length\<close> (dynamic-length containers); the test
  \<open>index < 0\<close> is part of it only for a non-constant index. For a constant index into a
  dynamic-length container the guard is \<open>index >= $length\<close> alone.
\<close>

theorem rangeCheck_dispatch:
  \<open>(rangeCheck pattern constantIndex array = pattern \<longleftrightarrow> constantIndex \<and> array)
   \<and> rangeCheck pattern True True = pattern
   \<and> rangeCheck pattern True False =
       ''(%2f >= %1e.$length ? $throwRuntimeError("index out of range") : '' @ pattern @ '')''
   \<and> rangeCheck pattern False True =
       ''((%2f < 0 || %2f >= %1e.length) ? $throwRuntimeError("index out of range") : ''
         @ pattern @ '')''
   \<and> rangeCheck pattern False False =
       ''((%2f < 0 || %2f >= %1e.$length) ? $throwRuntimeError("index out of range") : ''
         @ pattern @ '')''\<close>
proof -
  have neq: \<open>''('' @ xs @ pattern @ '')'' \<noteq> pattern\<close> for xs :: string
  proof
    assume \<open>''('' @ xs @ pattern @ '')'' = pattern\<close>
    then have \<open>length (''('' @ xs @ pattern @ '')'') = length pattern\<close> by simp
    then show False by simp
  qed
  have a: \<open>rangeCheck pattern constantIndex array = pattern \<longleftrightarrow> constantIndex \<and> array\<close>
    using neq [of \<open>''%2f >= %1e.$length ? $throwRuntimeError("index out of range") : ''\<close>]
      neq [of \<open>''(%2f < 0 || %2f >= %1e.length) ? $throwRuntimeError("index out of range") : ''\<close>]
      neq [of \<open>''(%2f < 0 || %2f >= %1e.$length) ? $throwRuntimeError("index out of range") : ''\<close>]
    by (cases constantIndex; cases array) (simp_all add: rangeCheck_def)
  show ?thesis
    using a by (simp add: rangeCheck_def)
qed

theorem rangeCheck_dispatch_counterexample:
  \<open>rangeCheck ''%1e.$array[%2f]'' True False =
     ''(%2f >= %1e.$length ? $throwRuntimeError("index out of range") : %1e.$array[%2f])''
   \<and> \<not> sublist ''< 0'' (rangeCheck ''%1e.$array[%2f]'' True False)
   \<and> rangeCheck ''%1e.$array[%2f]'' True False \<noteq> ''%1e.$array[%2f]''\<close>
  by (simp add: rangeCheck_def) code_simp

section \<open>Data model\<close>

subsection \<open>Types and objects of the type checker\<close>

text \<open>
  The type checker (\<^verbatim>\<open>golang.org/x/tools/go/types\<close>) is an external collaborator; its
  values are modelled as far as this file reads them. Pointers to its objects are modelled
  by the objects' values.
\<close>

datatype BasicKind =
  Invalid | Bool | Int' | Int8 | Int16 | Int32 | Int64
  | Uint | Uint8 | Uint16 | Uint32 | Uint64 | Uintptr
  | Float32 | Float64 | Complex64 | Complex128 | String | UnsafePointer
  | UntypedBool | UntypedInt | UntypedRune | UntypedFloat | UntypedComplex
  | UntypedString | UntypedNil

text \<open>\<^verbatim>\<open>types.BasicInfo\<close> is a set of flags, one bit each.\<close>

type_synonym BasicInfo = nat

definition IsBoolean :: BasicInfo where \<open>IsBoolean = 1\<close>
definition IsInteger :: BasicInfo where \<open>IsInteger = 2\<close>
definition IsUnsigned :: BasicInfo where \<open>IsUnsigned = 4\<close>
definition IsFloat :: BasicInfo where \<open>IsFloat = 8\<close>
definition IsComplex :: BasicInfo where \<open>IsComplex = 16\<close>
definition IsString :: BasicInfo where \<open>IsString = 32\<close>
definition IsUntyped :: BasicInfo where \<open>IsUntyped = 64\<close>
definition IsNumeric :: BasicInfo where \<open>IsNumeric = 26\<close>

record basic =
  Kind :: BasicKind
  Info :: BasicInfo
  BasicName :: string

record package =
  Path :: string
  Scope :: nat

datatype ObjectClass = Var | Const | TypeName | Func

record object =
  Class :: ObjectClass
  Name :: string
  ObjPkg :: "package option"
  Parent :: "nat option"
  Exported :: bool

datatype ChanDir = SendRecv | SendOnly | RecvOnly

datatype ty =
  Basic basic
  | Named object
  | Array int ty
  | Slice ty
  | Struct "field list"
  | Pointer ty
  | Tuple "ty list"
  | Signature "ty list" "ty list" bool
  | Interface "(string \<times> ty) list"
  | Map ty ty
  | Chan ChanDir ty
and field = Field (FieldName: string) (FieldType: ty) (FieldTag: string) (Embedded: bool)

datatype expr = Ident nat string | Node nat

record TypeAndValue =
  Type :: ty
  Value :: "string option"

record Error =
  Fset :: nat
  Pos :: int
  Msg :: string
  Soft :: bool

type_synonym registry = "(string \<times> nat) list"

record pkgContext =
  Pkg :: package
  Types :: "expr \<rightharpoonup> TypeAndValue"
  Uses :: "expr \<rightharpoonup> object"
  pkgVars :: "string \<rightharpoonup> string"
  objectNames :: "object \<rightharpoonup> string"
  escapingVars :: "object set"
  anonTypes :: "object list"
  anonTypeMap :: "ty \<rightharpoonup> object"
  dependencies :: "object set"
  minify :: bool
  indentation :: int
  fileSet :: nat
  errList :: "Error list"

record funcContext =
  pctx :: pkgContext
  allVars :: registry
  localVars :: "string list"
  parentVars :: "registry list"
  Blocking :: "expr set"
  output' :: "byte list"
  delayedOutput :: "byte list"
  posAvailable :: bool
  pos :: int

section \<open>Emission core\<close>

text \<open>
  \<^verbatim>\<open>uint32(c.pos)\<close> keeps the low 32 bits of the position; \<^verbatim>\<open>binary.Write\<close> with
  \<^verbatim>\<open>binary.BigEndian\<close> hands the four bytes, most significant first, to one call of
  \<^verbatim>\<open>c.Write\<close>.
\<close>

definition uint32 :: "int \<Rightarrow> int" where
  \<open>uint32 x = x mod 2 ^ 32\<close>

definition bigEndian32 :: "int \<Rightarrow> byte list" where
  \<open>bigEndian32 v =
     [char_of (v div 2 ^ 24), char_of (v div 2 ^ 16), char_of (v div 2 ^ 8), char_of v]\<close>

definition SetPos :: "funcContext \<Rightarrow> int \<Rightarrow> funcContext" where
  \<open>SetPos c x = c\<lparr>posAvailable := True, pos := x\<rparr>\<close>

text \<open>
  \<^verbatim>\<open>Write\<close> and \<^verbatim>\<open>writePos\<close> call each other. \<^verbatim>\<open>Write\<close> returns \<^verbatim>\<open>len(b), nil\<close> in every
  case; the model returns the context it leaves behind.
\<close>

function Write :: "funcContext \<Rightarrow> byte list \<Rightarrow> funcContext"
  and writePos :: "funcContext \<Rightarrow> funcContext" where
  \<open>Write c b = (let c = writePos c in c\<lparr>output' := output' c @ b\<rparr>)\<close>
| \<open>writePos c =
     (if posAvailable c then
        let c = c\<lparr>posAvailable := False\<rparr>;
            c = Write c [BS];
            c = Write c (bigEndian32 (uint32 (pos c)))
        in c
      else c)\<close>
  by pat_completeness auto

lemma writePos_idle_dom:
  \<open>Write_writePos_dom (Inr c) \<Longrightarrow> \<not> posAvailable c \<Longrightarrow> writePos c = c\<close>
  by (simp add: writePos.psimps)

lemma Write_idle_dom:
  assumes \<open>Write_writePos_dom (Inl (c, b))\<close> \<open>\<not> posAvailable c\<close>
  shows \<open>Write c b = c\<lparr>output' := output' c @ b\<rparr>\<close>
proof -
  have \<open>Write_writePos_dom (Inr c)\<close>
    by (rule accp_downward [OF assms(1)]) (rule Write_writePos_rel.intros)
  with assms show ?thesis by (simp add: Write.psimps writePos_idle_dom)
qed

termination Write
proof (relation \<open>measure (\<lambda>x. case x of Inl (c, b) \<Rightarrow> (if posAvailable c then 3 else 1)
                                   | Inr c \<Rightarrow> (if posAvailable c then 2 else 0))\<close>, goal_cases)
  case 1
  show ?case by simp
next
  case (2 c b)
  show ?case by simp
next
  case (3 c x)
  then show ?case by simp
next
  case (4 c x xa)
  then show ?case by (simp add: Write_idle_dom)
qed

declare Write.simps [simp del] writePos.simps [simp del]

text \<open>\<^verbatim>\<open>strings.Repeat\<close> panics on a negative count.\<close>

definition Repeat :: "string \<Rightarrow> int \<Rightarrow> error + string" where
  \<open>Repeat s n =
     (if n < 0 then Inl (Panic ''strings: negative Repeat count'')
      else Inr (concat (replicate (nat n) s)))\<close>

text \<open>
  \<^verbatim>\<open>Printf\<close>: \<open>s\<close> is the text that \<^verbatim>\<open>fmt.Fprintf\<close> has formatted from \<^verbatim>\<open>format\<close> and
  \<^verbatim>\<open>values\<close>; it reaches \<^verbatim>\<open>c.Write\<close> in one call.
\<close>

definition Printf :: "funcContext \<Rightarrow> string \<Rightarrow> error + funcContext" where
  \<open>Printf c s =
     (case Repeat [TAB] (indentation (pctx c)) of
        Inl e \<Rightarrow> Inl e
      | Inr tabs \<Rightarrow>
          let c = Write c tabs;
              c = Write c s;
              c = Write c [NL];
              c = Write c (delayedOutput c)
          in Inr (c\<lparr>delayedOutput := []\<rparr>))\<close>

text \<open>The callbacks of \<^verbatim>\<open>Indent\<close>, \<^verbatim>\<open>CatchOutput\<close> and \<^verbatim>\<open>Delayed\<close> work on the context and may
  panic.\<close>

definition addIndentation :: "funcContext \<Rightarrow> int \<Rightarrow> funcContext" where
  \<open>addIndentation c n = c\<lparr>pctx := (pctx c)\<lparr>indentation := indentation (pctx c) + n\<rparr>\<rparr>\<close>

definition Indent :: "funcContext \<Rightarrow> (funcContext \<Rightarrow> error + funcContext) \<Rightarrow> error + funcContext" where
  \<open>Indent c f =
     (case f (addIndentation c 1) of
        Inl e \<Rightarrow> Inl e
      | Inr c \<Rightarrow> Inr (addIndentation c (- 1)))\<close>

definition CatchOutput ::
  "funcContext \<Rightarrow> int \<Rightarrow> (funcContext \<Rightarrow> error + funcContext) \<Rightarrow> error + (byte list \<times> funcContext)" where
  \<open>CatchOutput c indent f =
     (let origoutput = output' c;
          c = c\<lparr>output' := []\<rparr>;
          c = addIndentation c indent
      in case f c of
           Inl e \<Rightarrow> Inl e
         | Inr c \<Rightarrow>
             let c = writePos c;
                 catched = output' c;
                 c = c\<lparr>output' := origoutput\<rparr>;
                 c = addIndentation c (- indent)
             in Inr (catched, c))\<close>

definition Delayed :: "funcContext \<Rightarrow> (funcContext \<Rightarrow> error + funcContext) \<Rightarrow> error + funcContext" where
  \<open>Delayed c f =
     (case CatchOutput c 0 f of
        Inl e \<Rightarrow> Inl e
      | Inr (catched, c) \<Rightarrow> Inr (c\<lparr>delayedOutput := catched\<rparr>))\<close>

subsection \<open>Debug-position markers\<close>

lemma writePos_idle: \<open>\<not> posAvailable c \<Longrightarrow> writePos c = c\<close>
  by (simp add: writePos.simps)

lemma Write_idle: \<open>\<not> posAvailable c \<Longrightarrow> Write c b = c\<lparr>output' := output' c @ b\<rparr>\<close>
  by (simp add: Write.simps writePos_idle)

lemma writePos_pending:
  \<open>posAvailable c \<Longrightarrow>
     writePos c = c\<lparr>posAvailable := False, output' := output' c @ BS # bigEndian32 (uint32 (pos c))\<rparr>\<close>
  by (subst writePos.simps) (simp add: Write_idle Let_def)

lemma Write_pending:
  \<open>posAvailable c \<Longrightarrow>
     Write c b =
       c\<lparr>posAvailable := False, output' := output' c @ BS # bigEndian32 (uint32 (pos c)) @ b\<rparr>\<close>
  by (subst Write.simps) (simp add: writePos_pending)

lemma Write_posAvailable: \<open>\<not> posAvailable (Write c b)\<close>
  by (cases \<open>posAvailable c\<close>) (simp_all add: Write_idle Write_pending)

lemma Writes_idle:
  \<open>\<not> posAvailable c \<Longrightarrow>
     output' (foldl Write c bs) = output' c @ concat bs \<and> \<not> posAvailable (foldl Write c bs)\<close>
  by (induction bs arbitrary: c) (simp_all add: Write_idle)

lemma bigEndian32_bytes:
  \<open>map of_char (bigEndian32 (uint32 x)) =
     [x mod 2 ^ 32 div 2 ^ 24 mod 256, x mod 2 ^ 32 div 2 ^ 16 mod 256,
      x mod 2 ^ 32 div 2 ^ 8 mod 256, x mod 2 ^ 32 mod (256 :: int)]\<close>
  by (simp add: bigEndian32_def uint32_def)

lemma bigEndian32_decode:
  fixes x :: int
  defines \<open>u \<equiv> x mod 2 ^ 32\<close>
  shows \<open>((u div 2 ^ 24 mod 256 * 256 + u div 2 ^ 16 mod 256) * 256 + u div 2 ^ 8 mod 256) * 256
           + u mod 256 = u\<close>
proof -
  have r: \<open>0 \<le> u\<close> \<open>u < 4294967296\<close> by (simp_all add: u_def)
  have d1: \<open>u div 65536 = u div 256 div 256\<close>
    using zdiv_zmult2_eq [of 256 u 256] by simp
  have d2: \<open>u div 16777216 = u div 256 div 256 div 256\<close>
    using zdiv_zmult2_eq [of 256 u 65536] d1 by simp
  define v where \<open>v = u div 256\<close>
  define w where \<open>w = v div 256\<close>
  define z where \<open>z = w div 256\<close>
  have z: \<open>z mod 256 = z\<close> using r by (simp add: z_def w_def v_def d2 [symmetric])
  have \<open>u = v * 256 + u mod 256\<close> by (simp add: v_def)
  moreover have \<open>v = w * 256 + v mod 256\<close> by (simp add: w_def)
  moreover have \<open>w = z * 256 + w mod 256\<close> by (simp add: z_def)
  ultimately have \<open>((z mod 256 * 256 + w mod 256) * 256 + v mod 256) * 256 + u mod 256 = u\<close>
    using z by simp
  then show ?thesis by (simp add: d1 d2 z_def w_def v_def)
qed

lemma CatchOutput_result:
  assumes \<open>f (addIndentation (c\<lparr>output' := []\<rparr>) indent) = Inr c'\<close>
  shows \<open>CatchOutput c indent f =
     Inr (output' c' @ (if posAvailable c' then BS # bigEndian32 (uint32 (pos c')) else []),
          addIndentation (c'\<lparr>posAvailable := False, output' := output' c\<rparr>) (- indent))\<close>
  using assms
  by (cases \<open>posAvailable c'\<close>)
    (simp_all add: CatchOutput_def writePos_pending writePos_idle addIndentation_def)

lemma CatchOutput_failure:
  \<open>f (addIndentation (c\<lparr>output' := []\<rparr>) indent) = Inl e \<Longrightarrow> CatchOutput c indent f = Inl e\<close>
  by (simp add: CatchOutput_def)

text \<open>
  C9. The first \<^verbatim>\<open>Write\<close> after \<^verbatim>\<open>SetPos(x)\<close> appends the sentinel \<^verbatim>\<open>'\\b'\<close>, the four
  big-endian bytes of \<open>x mod 2 ^ 32\<close> and then its own bytes; the writes that follow append
  their bytes only, so the position is written once. A \<^verbatim>\<open>Write\<close> on a context with no pending
  position appends its bytes and nothing else. \<^verbatim>\<open>CatchOutput\<close> returns what its callback
  wrote, followed by one marker when the callback left a position pending and by nothing
  otherwise; the context that continues has the output of before the call and no pending
  position, so the next \<^verbatim>\<open>Write\<close> on it appends its bytes only. A panic of the callback
  passes through.
\<close>

theorem SetPos_marker_once:
  \<open>output' (Write (SetPos c x) b) = output' c @ BS # bigEndian32 (uint32 x) @ b
   \<and> map of_char (bigEndian32 (uint32 x)) =
       [x mod 2 ^ 32 div 2 ^ 24 mod 256, x mod 2 ^ 32 div 2 ^ 16 mod 256,
        x mod 2 ^ 32 div 2 ^ 8 mod 256, x mod 2 ^ 32 mod (256 :: int)]
   \<and> output' (foldl Write (Write (SetPos c x) b) bs) =
       output' c @ BS # bigEndian32 (uint32 x) @ b @ concat bs
   \<and> \<not> posAvailable (foldl Write (Write (SetPos c x) b) bs)
   \<and> (\<not> posAvailable c \<longrightarrow> Write c b = c\<lparr>output' := output' c @ b\<rparr>)
   \<and> (f (addIndentation (c\<lparr>output' := []\<rparr>) indent) = Inr c' \<longrightarrow>
        CatchOutput c indent f =
          Inr (output' c' @ (if posAvailable c' then BS # bigEndian32 (uint32 (pos c')) else []),
               addIndentation (c'\<lparr>posAvailable := False, output' := output' c\<rparr>) (- indent))
        \<and> output' (Write (snd (projr (CatchOutput c indent f))) b) = output' c @ b)
   \<and> (f (addIndentation (c\<lparr>output' := []\<rparr>) indent) = Inl e \<longrightarrow> CatchOutput c indent f = Inl e)\<close>
proof (intro conjI impI)
  have p: \<open>posAvailable (SetPos c x)\<close> by (simp add: SetPos_def)
  show first: \<open>output' (Write (SetPos c x) b) = output' c @ BS # bigEndian32 (uint32 x) @ b\<close>
    by (simp add: Write_pending [OF p]) (simp add: SetPos_def)
  show \<open>map of_char (bigEndian32 (uint32 x)) =
       [x mod 2 ^ 32 div 2 ^ 24 mod 256, x mod 2 ^ 32 div 2 ^ 16 mod 256,
        x mod 2 ^ 32 div 2 ^ 8 mod 256, x mod 2 ^ 32 mod (256 :: int)]\<close>
    by (rule bigEndian32_bytes)
  from Writes_idle [OF Write_posAvailable, of \<open>SetPos c x\<close> b bs] first
  show \<open>output' (foldl Write (Write (SetPos c x) b) bs) =
       output' c @ BS # bigEndian32 (uint32 x) @ b @ concat bs\<close>
    and \<open>\<not> posAvailable (foldl Write (Write (SetPos c x) b) bs)\<close>
    by simp_all
next
  assume \<open>\<not> posAvailable c\<close>
  then show \<open>Write c b = c\<lparr>output' := output' c @ b\<rparr>\<close> by (rule Write_idle)
next
  assume r: \<open>f (addIndentation (c\<lparr>output' := []\<rparr>) indent) = Inr c'\<close>
  show \<open>CatchOutput c indent f =
          Inr (output' c' @ (if posAvailable c' then BS # bigEndian32 (uint32 (pos c')) else []),
               addIndentation (c'\<lparr>posAvailable := False, output' := output' c\<rparr>) (- indent))\<close>
    using r by (rule CatchOutput_result)
  then show \<open>output' (Write (snd (projr (CatchOutput c indent f))) b) = output' c @ b\<close>
    by (simp add: Write_idle addIndentation_def)
next
  assume \<open>f (addIndentation (c\<lparr>output' := []\<rparr>) indent) = Inl e\<close>
  then show \<open>CatchOutput c indent f = Inl e\<close> by (rule CatchOutput_failure)
qed

definition emptyPkgContext :: pkgContext where
  \<open>emptyPkgContext =
     \<lparr>Pkg = \<lparr>Path = ''main'', Scope = 0\<rparr>, Types = Map.empty, Uses = Map.empty,
      pkgVars = Map.empty, objectNames = Map.empty, escapingVars = {}, anonTypes = [],
      anonTypeMap = Map.empty, dependencies = {}, minify = False, indentation = 0,
      fileSet = 0, errList = []\<rparr>\<close>

definition emptyFuncContext :: funcContext where
  \<open>emptyFuncContext =
     \<lparr>pctx = emptyPkgContext, allVars = [], localVars = [], parentVars = [], Blocking = {},
      output' = [], delayedOutput = [], posAvailable = False, pos = 0\<rparr>\<close>

theorem SetPos_marker_once_witness:
  \<open>(\<exists>c''. CatchOutput emptyFuncContext 1 (\<lambda>c. Inr (SetPos (Write c ''x'') 258)) =
              Inr (''x'' @ [BS, CHR 0x00, CHR 0x00, CHR 0x01, CHR 0x02], c'')
            \<and> \<not> posAvailable c'' \<and> output' (Write c'' ''y'') = ''y'')
   \<and> (\<exists>c''. CatchOutput emptyFuncContext 1 (\<lambda>c. Inr (Write (SetPos c 258) ''x'')) =
              Inr ([BS, CHR 0x00, CHR 0x00, CHR 0x01, CHR 0x02] @ ''x'', c'')
            \<and> \<not> posAvailable c'' \<and> output' (Write c'' ''y'') = ''y'')
   \<and> (\<exists>c''. CatchOutput emptyFuncContext 1 (\<lambda>c. Inr (Write c ''x'')) = Inr (''x'', c'')
            \<and> \<not> posAvailable c'' \<and> output' (Write c'' ''y'') = ''y'')
   \<and> CatchOutput emptyFuncContext 1 (\<lambda>c. Inl (Panic ''p'')) = Inl (Panic ''p'')
   \<and> \<not> posAvailable emptyFuncContext
   \<and> Write emptyFuncContext ''ab'' = emptyFuncContext\<lparr>output' := ''ab''\<rparr>
   \<and> output' (Write (Write (SetPos emptyFuncContext 258) ''ab'') ''cd'') =
         [BS, CHR 0x00, CHR 0x00, CHR 0x01, CHR 0x02] @ ''abcd''\<close>
proof -
  let ?c0 = \<open>addIndentation (emptyFuncContext\<lparr>output' := []\<rparr>) 1\<close>
  let ?f1 = \<open>\<lambda>c. Inr (SetPos (Write c ''x'') 258) :: error + funcContext\<close>
  let ?f2 = \<open>\<lambda>c. Inr (Write (SetPos c 258) ''x'') :: error + funcContext\<close>
  let ?f3 = \<open>\<lambda>c. Inr (Write c ''x'') :: error + funcContext\<close>
  let ?f4 = \<open>\<lambda>c. Inl (Panic ''p'') :: error + funcContext\<close>
  have be: \<open>bigEndian32 (uint32 258) = [CHR 0x00, CHR 0x00, CHR 0x01, CHR 0x02]\<close>
    by code_simp
  have e: \<open>output' emptyFuncContext = []\<close> \<open>\<not> posAvailable emptyFuncContext\<close>
    by (simp_all add: emptyFuncContext_def)
  have i: \<open>\<not> posAvailable ?c0\<close> \<open>output' ?c0 = []\<close>
    by (simp_all add: addIndentation_def emptyFuncContext_def)
  have p: \<open>posAvailable (SetPos ?c0 258)\<close> by (simp add: SetPos_def)
  have h1: \<open>?f1 ?c0 = Inr (SetPos (Write ?c0 ''x'') 258)\<close> by simp
  have h2: \<open>?f2 ?c0 = Inr (Write (SetPos ?c0 258) ''x'')\<close> by simp
  have h3: \<open>?f3 ?c0 = Inr (Write ?c0 ''x'')\<close> by simp
  have h4: \<open>?f4 ?c0 = Inl (Panic ''p'')\<close> by simp
  have o1: \<open>output' (SetPos (Write ?c0 ''x'') 258) = ''x''\<close>
    \<open>pos (SetPos (Write ?c0 ''x'') 258) = 258\<close> \<open>posAvailable (SetPos (Write ?c0 ''x'') 258)\<close>
    by (simp_all add: SetPos_def Write_idle [OF i(1)] i(2))
  have o2: \<open>output' (Write (SetPos ?c0 258) ''x'') = [BS, CHR 0x00, CHR 0x00, CHR 0x01, CHR 0x02] @ ''x''\<close>
    \<open>\<not> posAvailable (Write (SetPos ?c0 258) ''x'')\<close>
    by (simp_all add: Write_pending [OF p] be) (simp_all add: SetPos_def i(2) be)
  have o3: \<open>output' (Write ?c0 ''x'') = ''x''\<close> \<open>\<not> posAvailable (Write ?c0 ''x'')\<close>
    by (simp_all add: Write_idle [OF i(1)] i)
  note t1 = SetPos_marker_once [of emptyFuncContext 258 \<open>''y''\<close> \<open>[]\<close> ?f1 1 _ \<open>Panic ''p''\<close>,
      THEN conjunct2, THEN conjunct2, THEN conjunct2, THEN conjunct2, THEN conjunct2,
      THEN conjunct1, rule_format, OF h1]
  note t2 = SetPos_marker_once [of emptyFuncContext 258 \<open>''y''\<close> \<open>[]\<close> ?f2 1 _ \<open>Panic ''p''\<close>,
      THEN conjunct2, THEN conjunct2, THEN conjunct2, THEN conjunct2, THEN conjunct2,
      THEN conjunct1, rule_format, OF h2]
  note t3 = SetPos_marker_once [of emptyFuncContext 258 \<open>''y''\<close> \<open>[]\<close> ?f3 1 _ \<open>Panic ''p''\<close>,
      THEN conjunct2, THEN conjunct2, THEN conjunct2, THEN conjunct2, THEN conjunct2,
      THEN conjunct1, rule_format, OF h3]
  note t4 = SetPos_marker_once [of emptyFuncContext 258 \<open>''y''\<close> \<open>[]\<close> ?f4 1 _ \<open>Panic ''p''\<close>,
      THEN conjunct2, THEN conjunct2, THEN conjunct2, THEN conjunct2, THEN conjunct2,
      THEN conjunct2, rule_format, OF h4]
  note t5 = SetPos_marker_once [of emptyFuncContext 258 \<open>''ab''\<close> \<open>[''cd'']\<close>]
  let ?k1 = \<open>addIndentation
      ((SetPos (Write ?c0 ''x'') 258)\<lparr>posAvailable := False, output' := output' emptyFuncContext\<rparr>)
      (- 1)\<close>
  let ?k2 = \<open>addIndentation
      ((Write (SetPos ?c0 258) ''x'')\<lparr>posAvailable := False, output' := output' emptyFuncContext\<rparr>)
      (- 1)\<close>
  let ?k3 = \<open>addIndentation
      ((Write ?c0 ''x'')\<lparr>posAvailable := False, output' := output' emptyFuncContext\<rparr>) (- 1)\<close>
  have q1: \<open>CatchOutput emptyFuncContext 1 ?f1 =
      Inr (''x'' @ [BS, CHR 0x00, CHR 0x00, CHR 0x01, CHR 0x02], ?k1)\<close>
    using t1 [THEN conjunct1] by (simp add: o1 be)
  have q2: \<open>CatchOutput emptyFuncContext 1 ?f2 =
      Inr ([BS, CHR 0x00, CHR 0x00, CHR 0x01, CHR 0x02] @ ''x'', ?k2)\<close>
    using t2 [THEN conjunct1] by (simp add: o2)
  have q3: \<open>CatchOutput emptyFuncContext 1 ?f3 = Inr (''x'', ?k3)\<close>
    using t3 [THEN conjunct1] by (simp add: o3)
  have n: \<open>\<not> posAvailable ?k1\<close> \<open>\<not> posAvailable ?k2\<close> \<open>\<not> posAvailable ?k3\<close>
    by (simp_all add: addIndentation_def)
  have w1: \<open>output' (Write ?k1 ''y'') = ''y''\<close>
    using t1 [THEN conjunct2] by (simp add: q1 e)
  have w2: \<open>output' (Write ?k2 ''y'') = ''y''\<close>
    using t2 [THEN conjunct2] by (simp add: q2 e)
  have w3: \<open>output' (Write ?k3 ''y'') = ''y''\<close>
    using t3 [THEN conjunct2] by (simp add: q3 e)
  have c1: \<open>\<exists>c''. CatchOutput emptyFuncContext 1 ?f1 =
              Inr (''x'' @ [BS, CHR 0x00, CHR 0x00, CHR 0x01, CHR 0x02], c'')
            \<and> \<not> posAvailable c'' \<and> output' (Write c'' ''y'') = ''y''\<close>
    by (rule exI [of _ ?k1]) (rule conjI [OF q1 conjI [OF n(1) w1]])
  have c2: \<open>\<exists>c''. CatchOutput emptyFuncContext 1 ?f2 =
              Inr ([BS, CHR 0x00, CHR 0x00, CHR 0x01, CHR 0x02] @ ''x'', c'')
            \<and> \<not> posAvailable c'' \<and> output' (Write c'' ''y'') = ''y''\<close>
    by (rule exI [of _ ?k2]) (rule conjI [OF q2 conjI [OF n(2) w2]])
  have c3: \<open>\<exists>c''. CatchOutput emptyFuncContext 1 ?f3 = Inr (''x'', c'')
            \<and> \<not> posAvailable c'' \<and> output' (Write c'' ''y'') = ''y''\<close>
    by (rule exI [of _ ?k3]) (rule conjI [OF q3 conjI [OF n(3) w3]])
  have c4: \<open>CatchOutput emptyFuncContext 1 ?f4 = Inl (Panic ''p'')\<close>
    by (rule t4)
  from t5 [THEN conjunct2, THEN conjunct2, THEN conjunct2, THEN conjunct2, THEN conjunct1,
      rule_format, OF e(2)]
  have c5: \<open>Write emptyFuncContext ''ab'' = emptyFuncContext\<lparr>output' := ''ab''\<rparr>\<close>
    by (simp add: e)
  from t5 [THEN conjunct2, THEN conjunct2, THEN conjunct1]
  have c6: \<open>output' (Write (Write (SetPos emptyFuncContext 258) ''ab'') ''cd'') =
         [BS, CHR 0x00, CHR 0x00, CHR 0x01, CHR 0x02] @ ''abcd''\<close>
    by (simp add: be e)
  show ?thesis
    by (rule conjI [OF c1 conjI [OF c2 conjI [OF c3 conjI [OF c4 conjI [OF e(2) conjI [OF c5 c6]]]]]])
qed

section \<open>Symbol naming registry\<close>

text \<open>
  \<^verbatim>\<open>allVars\<close> is a \<^verbatim>\<open>map[string]int\<close>. A Go map is finite and reading an absent key gives
  0; the counts are only ever written as \<open>n + 1\<close>, so they are kept as naturals.
\<close>

definition lookupVar :: "registry \<Rightarrow> string \<Rightarrow> nat" where
  \<open>lookupVar r name = (case map_of r name of None \<Rightarrow> 0 | Some n \<Rightarrow> n)\<close>

definition setVar :: "registry \<Rightarrow> string \<Rightarrow> nat \<Rightarrow> registry" where
  \<open>setVar r name n = AList.update name n r\<close>

text \<open>The \<^verbatim>\<open>%d\<close> verb: the decimal digits of a count.\<close>

fun decimal :: "nat \<Rightarrow> string" where
  \<open>decimal n =
     (if n < 10 then [char_of (of_char (CHR ''0'') + n)]
      else decimal (n div 10) @ [char_of (of_char (CHR ''0'') + n mod 10)])\<close>

declare decimal.simps [simp del]

text \<open>The first loop of \<^verbatim>\<open>newVariableWithLevel\<close>: a byte outside \<^verbatim>\<open>'0'..'z'\<close> replaces the
  whole name.\<close>

definition sanitize :: "string \<Rightarrow> string" where
  \<open>sanitize name =
     (if \<exists>b\<in>set name. b < CHR ''0'' \<or> CHR ''z'' < b then ''nonAsciiName'' else name)\<close>

text \<open>
  The inner loop of the minified branch builds the name of counter value \<open>j\<close>, last
  letter first. \<^verbatim>\<open>j = j/26 - 1\<close> reaches \<open>-1\<close> exactly when \<open>j div 26 = 0\<close>; \<open>j\<close> is never
  negative before, so it is a natural here. \<^verbatim>\<open>string(offset+(j%26))\<close> is one byte, the
  code being below 128.
\<close>

fun minifiedName :: "nat \<Rightarrow> nat \<Rightarrow> string \<Rightarrow> string" where
  \<open>minifiedName offset j name =
     (let name = char_of (offset + j mod 26) # name in
      if j div 26 = 0 then name else minifiedName offset (j div 26 - 1) name)\<close>

declare minifiedName.simps [simp del]

definition nameOffset :: "bool \<Rightarrow> nat" where
  \<open>nameOffset pkgLevel = (if pkgLevel then of_char (CHR ''A'') else of_char (CHR ''a''))\<close>

text \<open>The outer loop: the first counter value, from \<open>i\<close> on, whose name has count 0.\<close>

function minifyLoop :: "registry \<Rightarrow> bool \<Rightarrow> nat \<Rightarrow> string" where
  \<open>minifyLoop r pkgLevel i =
     (let name = minifiedName (nameOffset pkgLevel) i [] in
      if lookupVar r name = 0 then name else minifyLoop r pkgLevel (i + 1))\<close>
  by pat_completeness auto

lemma minifiedName_acc: \<open>minifiedName offset j acc = minifiedName offset j [] @ acc\<close>
proof (induction j arbitrary: acc rule: less_induct)
  case (less j)
  show ?case
  proof (cases \<open>j div 26 = 0\<close>)
    case True
    then show ?thesis
      by (simp add: minifiedName.simps [of offset j])
  next
    case False
    then have \<open>j div 26 - 1 < j\<close> by simp
    from less [OF this, of \<open>char_of (offset + j mod 26) # acc\<close>]
      less [OF this, of \<open>[char_of (offset + j mod 26)]\<close>] False
    show ?thesis
      by (simp add: minifiedName.simps [of offset j])
  qed
qed

lemma minifiedName_unfold:
  \<open>minifiedName offset j [] =
     (if j div 26 = 0 then [] else minifiedName offset (j div 26 - 1) [])
       @ [char_of (offset + j mod 26)]\<close>
  using minifiedName_acc [of offset \<open>j div 26 - 1\<close> \<open>[char_of (offset + j mod 26)]\<close>]
  by (simp add: minifiedName.simps [of offset j])

text \<open>Reading a minified name back as a bijective base-26 numeral gives the counter value
  plus one, so distinct counter values have distinct names.\<close>

definition unminify :: "nat \<Rightarrow> string \<Rightarrow> nat" where
  \<open>unminify offset s = foldl (\<lambda>a ch. 26 * a + (of_char ch - offset) + 1) 0 s\<close>

lemma unminify_minifiedName:
  \<open>offset + 25 < 256 \<Longrightarrow> unminify offset (minifiedName offset j []) = j + 1\<close>
proof (induction j rule: less_induct)
  case (less j)
  have ch: \<open>of_char (char_of (offset + j mod 26)) = offset + j mod 26\<close>
    using less.prems by (simp add: of_char_of)
  show ?case
  proof (cases \<open>j div 26 = 0\<close>)
    case True
    then have \<open>j mod 26 = j\<close> by (simp add: div_eq_0_iff)
    with True ch show ?thesis
      by (subst minifiedName_unfold) (simp add: unminify_def)
  next
    case False
    then have \<open>j div 26 - 1 < j\<close> by simp
    from less.IH [OF this less.prems] False ch show ?thesis
      by (subst minifiedName_unfold) (simp add: unminify_def)
  qed
qed

lemma minifiedName_inj:
  assumes \<open>offset + 25 < 256\<close> \<open>minifiedName offset j [] = minifiedName offset k []\<close>
  shows \<open>j = k\<close>
proof -
  have \<open>j + 1 = unminify offset (minifiedName offset j [])\<close>
    by (rule unminify_minifiedName [OF assms(1), symmetric])
  also have \<open>\<dots> = unminify offset (minifiedName offset k [])\<close>
    by (simp only: assms(2))
  also have \<open>\<dots> = k + 1\<close>
    by (rule unminify_minifiedName [OF assms(1)])
  finally show ?thesis by simp
qed

lemma nameOffset_bound: \<open>nameOffset pkgLevel + 25 < 256\<close>
  by (simp add: nameOffset_def)

lemma lookupVar_nonzero: \<open>lookupVar r x \<noteq> 0 \<Longrightarrow> x \<in> fst ` set r\<close>
  using map_of_eq_None_iff [of r x] by (auto simp: lookupVar_def split: option.splits)

lemma minifyLoop_reserved_finite:
  \<open>finite {j. lookupVar r (minifiedName (nameOffset pkgLevel) j []) \<noteq> 0}\<close>
proof -
  let ?n = \<open>\<lambda>j. minifiedName (nameOffset pkgLevel) j []\<close>
  have \<open>inj ?n\<close>
    by (rule injI) (rule minifiedName_inj [OF nameOffset_bound])
  moreover have \<open>{j. lookupVar r (?n j) \<noteq> 0} \<subseteq> ?n -` fst ` set r\<close>
    using lookupVar_nonzero by blast
  moreover have \<open>finite (fst ` set r)\<close> by simp
  ultimately show ?thesis
    using finite_subset finite_vimageI by blast
qed

termination minifyLoop
proof (relation \<open>measure (\<lambda>(r, pkgLevel, i).
    card {j. i \<le> j \<and> lookupVar r (minifiedName (nameOffset pkgLevel) j []) \<noteq> 0})\<close>, goal_cases)
  case 1
  show ?case by simp
next
  case (2 r pkgLevel i name)
  let ?S = \<open>\<lambda>i. {j. i \<le> j \<and> lookupVar r (minifiedName (nameOffset pkgLevel) j []) \<noteq> 0}\<close>
  have fin: \<open>finite (?S i)\<close>
    by (rule finite_subset [OF _ minifyLoop_reserved_finite [of r pkgLevel]]) auto
  have \<open>i \<in> ?S i\<close> \<open>i \<notin> ?S (i + 1)\<close> using 2 by simp_all
  moreover have \<open>?S (i + 1) \<subseteq> ?S i\<close> by auto
  ultimately have \<open>?S (i + 1) \<subset> ?S i\<close> by blast
  from psubset_card_mono [OF fin this] show ?case
    by (simp only: in_measure split_conv)
qed

declare minifyLoop.simps [simp del]

text \<open>\<^verbatim>\<open>varName\<close> as computed from the count \<open>n\<close> read for \<open>name\<close>.\<close>

definition varNameOf :: "string \<Rightarrow> nat \<Rightarrow> string" where
  \<open>varNameOf name n = (if n > 0 then name @ ''$'' @ decimal n else name)\<close>

definition newVariableWithLevel ::
  "funcContext \<Rightarrow> string \<Rightarrow> bool \<Rightarrow> error + (string \<times> funcContext)" where
  \<open>newVariableWithLevel c name pkgLevel =
     (if name = [] then Inl (Panic ''newVariable: empty name'')
      else
        let name = sanitize name;
            name = (if minify (pctx c) then minifyLoop (allVars c) pkgLevel 0 else name);
            n = lookupVar (allVars c) name;
            c = c\<lparr>allVars := setVar (allVars c) name (n + 1)\<rparr>;
            varName = varNameOf name n
        in if pkgLevel then
             Inr (varName, c\<lparr>parentVars := map (\<lambda>r. setVar r name (n + 1)) (parentVars c)\<rparr>)
           else Inr (varName, c\<lparr>localVars := localVars c @ [varName]\<rparr>))\<close>

definition newVariable :: "funcContext \<Rightarrow> string \<Rightarrow> error + (string \<times> funcContext)" where
  \<open>newVariable c name = newVariableWithLevel c name False\<close>

text \<open>A sequence of allocation calls on one context, each with its name and level; the
  first panic ends it.\<close>

fun newVariables ::
  "funcContext \<Rightarrow> (string \<times> bool) list \<Rightarrow> error + (string list \<times> funcContext)" where
  \<open>newVariables c [] = Inr ([], c)\<close>
| \<open>newVariables c ((name, pkgLevel) # reqs) =
     (case newVariableWithLevel c name pkgLevel of
        Inl e \<Rightarrow> Inl e
      | Inr (v, c') \<Rightarrow>
          (case newVariables c' reqs of
             Inl e \<Rightarrow> Inl e
           | Inr (vs, c'') \<Rightarrow> Inr (v # vs, c'')))\<close>

subsection \<open>Registry, digits and sanitized names\<close>

lemma lookupVar_setVar:
  \<open>lookupVar (setVar r k v) x = (if x = k then v else lookupVar r x)\<close>
  by (simp add: lookupVar_def setVar_def update_conv')





lemma decimal_digits: \<open>CHR ''$'' \<notin> set (decimal n)\<close>
proof (induction n rule: decimal.induct)
  case (1 n)
  have d: \<open>char_of (48 + k) \<noteq> CHR ''$''\<close> if \<open>k < 10\<close> for k :: nat
  proof
    assume \<open>char_of (48 + k) = CHR ''$''\<close>
    then have \<open>of_char (char_of (48 + k)) = (of_char (CHR ''$'') :: nat)\<close> by simp
    with that show False by (simp add: of_char_of)
  qed
  show ?case
  proof (cases \<open>n < 10\<close>)
    case True
    with d [of n] show ?thesis by (subst decimal.simps) simp
  next
    case False
    with "1" [OF False] d [of \<open>n mod 10\<close>] show ?thesis
      by (subst decimal.simps) simp
  qed
qed






subsection \<open>One allocation\<close>

lemma minifyLoop_first_free:
  \<open>\<exists>k\<ge>i. minifyLoop r pkgLevel i = minifiedName (nameOffset pkgLevel) k []
     \<and> lookupVar r (minifiedName (nameOffset pkgLevel) k []) = 0
     \<and> (\<forall>j. i \<le> j \<and> j < k \<longrightarrow> lookupVar r (minifiedName (nameOffset pkgLevel) j []) \<noteq> 0)\<close>
proof (induction r pkgLevel i rule: minifyLoop.induct)
  case (1 r pkgLevel i)
  show ?case
  proof (cases \<open>lookupVar r (minifiedName (nameOffset pkgLevel) i []) = 0\<close>)
    case True
    then show ?thesis
      by (intro exI [of _ i]) (simp add: minifyLoop.simps [of r pkgLevel i])
  next
    case False
    from "1" [OF refl False] obtain k where k: \<open>i + 1 \<le> k\<close>
      \<open>minifyLoop r pkgLevel (i + 1) = minifiedName (nameOffset pkgLevel) k []\<close>
      \<open>lookupVar r (minifiedName (nameOffset pkgLevel) k []) = 0\<close>
      \<open>\<forall>j. i + 1 \<le> j \<and> j < k \<longrightarrow> lookupVar r (minifiedName (nameOffset pkgLevel) j []) \<noteq> 0\<close>
      by blast
    have ml: \<open>minifyLoop r pkgLevel i = minifyLoop r pkgLevel (i + 1)\<close>
      using False by (subst minifyLoop.simps) (simp add: Let_def)
    have \<open>lookupVar r (minifiedName (nameOffset pkgLevel) j []) \<noteq> 0\<close> if \<open>i \<le> j\<close> \<open>j < k\<close> for j
      using that False k(4) by (cases \<open>j = i\<close>) auto
    with k(1,3) ml k(2) show ?thesis
      by (intro exI [of _ k]) auto
  qed
qed

lemma newVariableWithLevel_plain:
  assumes \<open>\<not> minify (pctx c)\<close> \<open>name \<noteq> []\<close>
  shows \<open>newVariableWithLevel c name pkgLevel =
    Inr (varNameOf (sanitize name) (lookupVar (allVars c) (sanitize name)),
      if pkgLevel then
        c\<lparr>allVars := setVar (allVars c) (sanitize name) (lookupVar (allVars c) (sanitize name) + 1),
          parentVars := map (\<lambda>r. setVar r (sanitize name) (lookupVar (allVars c) (sanitize name) + 1))
                          (parentVars c)\<rparr>
      else
        c\<lparr>allVars := setVar (allVars c) (sanitize name) (lookupVar (allVars c) (sanitize name) + 1),
          localVars := localVars c
            @ [varNameOf (sanitize name) (lookupVar (allVars c) (sanitize name))]\<rparr>)\<close>
  using assms by (simp add: newVariableWithLevel_def Let_def)

lemma newVariableWithLevel_minify:
  assumes \<open>minify (pctx c)\<close> \<open>name \<noteq> []\<close>
  shows \<open>\<exists>k. lookupVar (allVars c) (minifiedName (nameOffset pkgLevel) k []) = 0
     \<and> (\<forall>j<k. lookupVar (allVars c) (minifiedName (nameOffset pkgLevel) j []) \<noteq> 0)
     \<and> newVariableWithLevel c name pkgLevel =
        Inr (minifiedName (nameOffset pkgLevel) k [],
          if pkgLevel then
            c\<lparr>allVars := setVar (allVars c) (minifiedName (nameOffset pkgLevel) k []) 1,
              parentVars := map (\<lambda>r. setVar r (minifiedName (nameOffset pkgLevel) k []) 1)
                              (parentVars c)\<rparr>
          else
            c\<lparr>allVars := setVar (allVars c) (minifiedName (nameOffset pkgLevel) k []) 1,
              localVars := localVars c @ [minifiedName (nameOffset pkgLevel) k []]\<rparr>)\<close>
proof -
  from minifyLoop_first_free [of 0 \<open>allVars c\<close> pkgLevel] obtain k where
    k: \<open>minifyLoop (allVars c) pkgLevel 0 = minifiedName (nameOffset pkgLevel) k []\<close>
    \<open>lookupVar (allVars c) (minifiedName (nameOffset pkgLevel) k []) = 0\<close>
    \<open>\<forall>j<k. lookupVar (allVars c) (minifiedName (nameOffset pkgLevel) j []) \<noteq> 0\<close>
    by auto
  from assms k(1,2) have
    \<open>newVariableWithLevel c name pkgLevel =
        Inr (minifiedName (nameOffset pkgLevel) k [],
          if pkgLevel then
            c\<lparr>allVars := setVar (allVars c) (minifiedName (nameOffset pkgLevel) k []) 1,
              parentVars := map (\<lambda>r. setVar r (minifiedName (nameOffset pkgLevel) k []) 1)
                              (parentVars c)\<rparr>
          else
            c\<lparr>allVars := setVar (allVars c) (minifiedName (nameOffset pkgLevel) k []) 1,
              localVars := localVars c @ [minifiedName (nameOffset pkgLevel) k []]\<rparr>)\<close>
    by (cases pkgLevel) (simp_all add: newVariableWithLevel_def Let_def varNameOf_def)
  with k(2,3) show ?thesis by blast
qed







subsection \<open>Minified allocation\<close>

lemma newVariableWithLevel_minify_facts:
  assumes \<open>minify (pctx c)\<close> \<open>name \<noteq> []\<close>
  obtains k c' where
    \<open>lookupVar (allVars c) (minifiedName (nameOffset pkgLevel) k []) = 0\<close>
    \<open>\<forall>j<k. lookupVar (allVars c) (minifiedName (nameOffset pkgLevel) j []) \<noteq> 0\<close>
    \<open>newVariableWithLevel c name pkgLevel = Inr (minifiedName (nameOffset pkgLevel) k [], c')\<close>
    \<open>pctx c' = pctx c\<close>
    \<open>allVars c' = setVar (allVars c) (minifiedName (nameOffset pkgLevel) k []) 1\<close>
    \<open>parentVars c' =
       (if pkgLevel
        then map (\<lambda>r. setVar r (minifiedName (nameOffset pkgLevel) k []) 1) (parentVars c)
        else parentVars c)\<close>
proof -
  from newVariableWithLevel_minify [OF assms, of pkgLevel] obtain k where
    k: \<open>lookupVar (allVars c) (minifiedName (nameOffset pkgLevel) k []) = 0\<close>
    \<open>\<forall>j<k. lookupVar (allVars c) (minifiedName (nameOffset pkgLevel) j []) \<noteq> 0\<close>
    and r: \<open>newVariableWithLevel c name pkgLevel =
        Inr (minifiedName (nameOffset pkgLevel) k [],
          if pkgLevel then
            c\<lparr>allVars := setVar (allVars c) (minifiedName (nameOffset pkgLevel) k []) 1,
              parentVars := map (\<lambda>r. setVar r (minifiedName (nameOffset pkgLevel) k []) 1)
                              (parentVars c)\<rparr>
          else
            c\<lparr>allVars := setVar (allVars c) (minifiedName (nameOffset pkgLevel) k []) 1,
              localVars := localVars c @ [minifiedName (nameOffset pkgLevel) k []]\<rparr>)\<close>
    by blast
  show thesis
    by (rule that [OF k r]) (cases pkgLevel; simp)+
qed

text \<open>The results of the package-level requests among \<open>reqs\<close>.\<close>

definition pkgLevelNames :: "string list \<Rightarrow> (string \<times> bool) list \<Rightarrow> string list" where
  \<open>pkgLevelNames outs reqs = map fst (filter (\<lambda>(v, req). snd req) (zip outs reqs))\<close>

lemma pkgLevelNames_nth:
  \<open>k < length reqs \<Longrightarrow> length outs = length reqs \<Longrightarrow> snd (reqs ! k) \<Longrightarrow>
     outs ! k \<in> set (pkgLevelNames outs reqs)\<close>
proof -
  assume a: \<open>k < length reqs\<close> \<open>length outs = length reqs\<close> \<open>snd (reqs ! k)\<close>
  then have \<open>(outs ! k, reqs ! k) \<in> set (zip outs reqs)\<close>
    by (auto simp: set_zip)
  with a(3) show ?thesis
    by (force simp: pkgLevelNames_def)
qed

definition minifiedRun ::
  "funcContext \<Rightarrow> (string \<times> bool) list \<Rightarrow> string list \<Rightarrow> funcContext \<Rightarrow> bool" where
  \<open>minifiedRun c reqs outs c' \<longleftrightarrow>
     length outs = length reqs \<and> pctx c' = pctx c \<and> distinct outs
     \<and> (\<forall>x. lookupVar (allVars c') x = (if x \<in> set outs then 1 else lookupVar (allVars c) x))
     \<and> (\<forall>v\<in>set outs. lookupVar (allVars c) v = 0)
     \<and> (\<forall>k<length reqs. \<exists>i. outs ! k = minifiedName (nameOffset (snd (reqs ! k))) i []
           \<and> (\<forall>j<i. lookupVar (allVars c) (minifiedName (nameOffset (snd (reqs ! k))) j []) \<noteq> 0
                  \<or> minifiedName (nameOffset (snd (reqs ! k))) j [] \<in> set (take k outs)))
     \<and> list_all2 (\<lambda>r r'. \<forall>x. lookupVar r' x =
            (if x \<in> set (pkgLevelNames outs reqs) then 1 else lookupVar r x))
          (parentVars c) (parentVars c')\<close>

lemma newVariables_minify:
  assumes \<open>minify (pctx c)\<close> \<open>\<forall>req\<in>set reqs. fst req \<noteq> []\<close>
  shows \<open>\<exists>outs c'. newVariables c reqs = Inr (outs, c') \<and> minifiedRun c reqs outs c'\<close>
  using assms
proof (induction reqs arbitrary: c)
  case Nil
  have \<open>list_all2 (\<lambda>r r'. \<forall>x. lookupVar r' x = lookupVar r x) (parentVars c) (parentVars c)\<close>
    by (simp add: list_all2_same)
  then show ?case by (simp add: minifiedRun_def pkgLevelNames_def)
next
  case (Cons req reqs)
  obtain name pkgLevel where req: \<open>req = (name, pkgLevel)\<close> by (cases req)
  from Cons.prems req have ne: \<open>name \<noteq> []\<close> by simp
  let ?m = \<open>\<lambda>l j. minifiedName (nameOffset l) j []\<close>
  from newVariableWithLevel_minify_facts [OF Cons.prems(1) ne, of pkgLevel] obtain k c1 where
    k: \<open>lookupVar (allVars c) (?m pkgLevel k) = 0\<close>
      \<open>\<forall>j<k. lookupVar (allVars c) (?m pkgLevel j) \<noteq> 0\<close>
    and c1: \<open>newVariableWithLevel c name pkgLevel = Inr (?m pkgLevel k, c1)\<close>
      \<open>pctx c1 = pctx c\<close> \<open>allVars c1 = setVar (allVars c) (?m pkgLevel k) 1\<close>
      \<open>parentVars c1 =
         (if pkgLevel then map (\<lambda>r. setVar r (?m pkgLevel k) 1) (parentVars c) else parentVars c)\<close>
    by blast
  let ?v = \<open>?m pkgLevel k\<close>
  have l1: \<open>lookupVar (allVars c1) x = (if x = ?v then 1 else lookupVar (allVars c) x)\<close> for x
    by (simp add: c1(3) lookupVar_setVar)
  from Cons.prems c1(2) have \<open>minify (pctx c1)\<close> \<open>\<forall>req\<in>set reqs. fst req \<noteq> []\<close> by simp_all
  from Cons.IH [OF this] obtain outs c' where
    r: \<open>newVariables c1 reqs = Inr (outs, c')\<close> and run: \<open>minifiedRun c1 reqs outs c'\<close>
    by blast
  from run have len: \<open>length outs = length reqs\<close> and p: \<open>pctx c' = pctx c1\<close>
    and d: \<open>distinct outs\<close>
    and l: \<open>\<And>x. lookupVar (allVars c') x = (if x \<in> set outs then 1 else lookupVar (allVars c1) x)\<close>
    and z: \<open>\<And>v. v \<in> set outs \<Longrightarrow> lookupVar (allVars c1) v = 0\<close>
    and f: \<open>\<And>k. k < length reqs \<Longrightarrow> \<exists>i. outs ! k = ?m (snd (reqs ! k)) i
           \<and> (\<forall>j<i. lookupVar (allVars c1) (?m (snd (reqs ! k)) j) \<noteq> 0
                  \<or> ?m (snd (reqs ! k)) j \<in> set (take k outs))\<close>
    and a: \<open>list_all2 (\<lambda>r r'. \<forall>x. lookupVar r' x =
            (if x \<in> set (pkgLevelNames outs reqs) then 1 else lookupVar r x))
          (parentVars c1) (parentVars c')\<close>
    by (simp_all add: minifiedRun_def)
  have vnot: \<open>?v \<notin> set outs\<close>
  proof
    assume \<open>?v \<in> set outs\<close>
    from z [OF this] l1 [of ?v] show False by simp
  qed
  have z': \<open>lookupVar (allVars c) v = 0\<close> if \<open>v \<in> set (?v # outs)\<close> for v
  proof (cases \<open>v = ?v\<close>)
    case True
    with k(1) show ?thesis by simp
  next
    case False
    with that have \<open>v \<in> set outs\<close> by simp
    from z [OF this] l1 [of v] False show ?thesis by simp
  qed
  have f': \<open>\<exists>i. (?v # outs) ! n = ?m (snd ((req # reqs) ! n)) i
           \<and> (\<forall>j<i. lookupVar (allVars c) (?m (snd ((req # reqs) ! n)) j) \<noteq> 0
                  \<or> ?m (snd ((req # reqs) ! n)) j \<in> set (take n (?v # outs)))\<close>
    if \<open>n < length (req # reqs)\<close> for n
  proof (cases n)
    case 0
    with k(2) show ?thesis by (intro exI [of _ k]) (simp add: req)
  next
    case (Suc n')
    with that have \<open>n' < length reqs\<close> by simp
    from f [OF this] obtain i where
      i: \<open>outs ! n' = ?m (snd (reqs ! n')) i\<close>
      \<open>\<forall>j<i. lookupVar (allVars c1) (?m (snd (reqs ! n')) j) \<noteq> 0
                  \<or> ?m (snd (reqs ! n')) j \<in> set (take n' outs)\<close>
      by blast
    have \<open>lookupVar (allVars c) (?m (snd (reqs ! n')) j) \<noteq> 0
            \<or> ?m (snd (reqs ! n')) j \<in> set (take (Suc n') (?v # outs))\<close> if \<open>j < i\<close> for j
      using i(2) [rule_format, OF that] l1 [of \<open>?m (snd (reqs ! n')) j\<close>]
      by (cases \<open>?m (snd (reqs ! n')) j = ?v\<close>) auto
    with i(1) show ?thesis by (intro exI [of _ i]) (simp add: Suc)
  qed
  have pn: \<open>set (pkgLevelNames (?v # outs) (req # reqs)) =
      (if pkgLevel then {?v} else {}) \<union> set (pkgLevelNames outs reqs)\<close>
    by (simp add: pkgLevelNames_def req)
  have a1: \<open>list_all2 (\<lambda>r r'. \<forall>x. lookupVar r' x =
            (if pkgLevel \<and> x = ?v then 1 else lookupVar r x)) (parentVars c) (parentVars c1)\<close>
    by (cases pkgLevel) (simp_all add: c1(4) list_all2_map2 list_all2_same lookupVar_setVar)
  have a': \<open>list_all2 (\<lambda>r r'. \<forall>x. lookupVar r' x =
            (if x \<in> set (pkgLevelNames (?v # outs) (req # reqs)) then 1 else lookupVar r x))
          (parentVars c) (parentVars c')\<close>
    by (rule list_all2_trans [OF _ a1 a]) (auto simp: pn)
  have \<open>minifiedRun c (req # reqs) (?v # outs) c'\<close>
    unfolding minifiedRun_def
    using len p c1(2) d vnot l l1 z' f' a' by (intro conjI) auto
  moreover have \<open>newVariables c (req # reqs) = Inr (?v # outs, c')\<close>
    using c1(1) r by (simp add: req)
  ultimately show ?case by blast
qed

lemma minifiedName_chars:
  assumes \<open>offset + 25 < 256\<close>
  shows \<open>\<forall>ch\<in>set (minifiedName offset j []). offset \<le> of_char ch \<and> of_char ch \<le> offset + 25\<close>
proof (induction j rule: less_induct)
  case (less j)
  have \<open>j mod 26 \<le> 25\<close> using mod_less_divisor [of 26 j] by simp
  then have ch: \<open>of_char (char_of (offset + j mod 26)) = offset + j mod 26\<close>
    using assms by (simp add: of_char_of)
  show ?case
  proof (cases \<open>j div 26 = 0\<close>)
    case True
    with ch \<open>j mod 26 \<le> 25\<close> show ?thesis
      by (subst minifiedName_unfold) simp
  next
    case False
    then have \<open>j div 26 - 1 < j\<close> by simp
    from less [OF this] False ch \<open>j mod 26 \<le> 25\<close> show ?thesis
      by (subst minifiedName_unfold) simp
  qed
qed

lemma minifiedName_letters:
  \<open>ch \<in> set (minifiedName (nameOffset pkgLevel) j []) \<Longrightarrow>
     (if pkgLevel then CHR ''A'' \<le> ch \<and> ch \<le> CHR ''Z'' else CHR ''a'' \<le> ch \<and> ch \<le> CHR ''z'')\<close>
  using minifiedName_chars [OF nameOffset_bound, of pkgLevel j]
  by (auto simp: nameOffset_def less_eq_char_def)

lemma unminify_snoc:
  \<open>unminify offset (s @ [ch]) = 26 * unminify offset s + (of_char ch - offset) + 1\<close>
  by (simp add: unminify_def)

lemma minifiedName_unminify:
  assumes \<open>offset + 25 < 256\<close> \<open>s \<noteq> []\<close>
    \<open>\<forall>ch\<in>set s. offset \<le> of_char ch \<and> of_char ch \<le> offset + 25\<close>
  shows \<open>minifiedName offset (unminify offset s - 1) [] = s\<close>
  using assms(2,3)
proof (induction s rule: rev_induct)
  case Nil
  then show ?case by simp
next
  case (snoc ch s)
  define d where \<open>d = of_char ch - offset\<close>
  from snoc.prems have d: \<open>d < 26\<close> \<open>offset + d = of_char ch\<close> by (auto simp: d_def)
  have c: \<open>char_of (offset + d) = ch\<close> by (simp add: d(2))
  have u: \<open>unminify offset (s @ [ch]) - 1 = 26 * unminify offset s + d\<close>
    by (simp add: unminify_snoc d_def)
  show ?case
  proof (cases \<open>s = []\<close>)
    case True
    with d c have \<open>minifiedName offset (26 * unminify offset s + d) [] = s @ [ch]\<close>
      by (subst minifiedName_unfold) (simp add: unminify_def)
    then show ?thesis by (simp only: u)
  next
    case False
    with snoc have ih: \<open>minifiedName offset (unminify offset s - 1) [] = s\<close> by simp
    from unminify_minifiedName [OF assms(1), of \<open>unminify offset s - 1\<close>] ih
    have pos: \<open>unminify offset s \<ge> 1\<close> by simp
    with d have \<open>(26 * unminify offset s + d) div 26 = unminify offset s\<close>
      \<open>(26 * unminify offset s + d) mod 26 = d\<close> by simp_all
    with pos ih c have \<open>minifiedName offset (26 * unminify offset s + d) [] = s @ [ch]\<close>
      by (subst minifiedName_unfold) simp
    then show ?thesis by (simp only: u)
  qed
qed

lemma newVariableWithLevel_minify_free:
  assumes \<open>minify (pctx d)\<close> \<open>newVariableWithLevel d name pkgLevel = Inr (v, d')\<close>
  shows \<open>lookupVar (allVars d) v = 0\<close>
proof (cases \<open>name = []\<close>)
  case True
  with assms(2) show ?thesis by (simp add: newVariableWithLevel_def)
next
  case False
  from newVariableWithLevel_minify_facts [OF assms(1) False, of pkgLevel] assms(2)
  show ?thesis by (metis Inr_inject prod.inject)
qed

text \<open>
  C2. In minified mode a sequence of allocations on one context returns pairwise distinct
  names. The \<open>k\<close>-th is the name of the least counter value \<open>i\<close> of its level (letters
  \<^verbatim>\<open>a..z\<close> for a local request, \<^verbatim>\<open>A..Z\<close> for a package-level one) that is neither reserved
  in the registry the sequence starts with nor taken by an earlier result, so requests of one
  level get strictly increasing counter values. Counter values and names correspond one to
  one. After the sequence every package-level result has count 1 in the context's registry
  and in the registry of every ancestor; and a minified allocation on any context only
  returns a name whose count in that context's registry is 0.
\<close>

theorem minified_names_ordered:
  assumes \<open>minify (pctx c)\<close> \<open>\<forall>req\<in>set reqs. fst req \<noteq> []\<close>
  shows \<open>\<exists>outs c'. newVariables c reqs = Inr (outs, c') \<and> length outs = length reqs
     \<and> distinct outs
     \<and> (\<forall>k<length reqs. \<exists>i. outs ! k = minifiedName (nameOffset (snd (reqs ! k))) i []
           \<and> lookupVar (allVars c) (outs ! k) = 0
           \<and> (\<forall>j<i. lookupVar (allVars c) (minifiedName (nameOffset (snd (reqs ! k))) j []) \<noteq> 0
                  \<or> minifiedName (nameOffset (snd (reqs ! k))) j [] \<in> set (take k outs)))
     \<and> (\<forall>k k' i i'. k < k' \<and> k' < length reqs \<and> snd (reqs ! k) = snd (reqs ! k')
           \<and> outs ! k = minifiedName (nameOffset (snd (reqs ! k))) i []
           \<and> outs ! k' = minifiedName (nameOffset (snd (reqs ! k'))) i' [] \<longrightarrow> i < i')
     \<and> (\<forall>k<length reqs. \<forall>ch\<in>set (outs ! k).
           if snd (reqs ! k) then CHR ''A'' \<le> ch \<and> ch \<le> CHR ''Z''
           else CHR ''a'' \<le> ch \<and> ch \<le> CHR ''z'')
     \<and> length (parentVars c') = length (parentVars c)
     \<and> (\<forall>k<length reqs. snd (reqs ! k) \<longrightarrow>
           lookupVar (allVars c') (outs ! k) = 1
           \<and> (\<forall>r\<in>set (parentVars c'). lookupVar r (outs ! k) = 1))
     \<and> (\<forall>pkgLevel i j. minifiedName (nameOffset pkgLevel) i [] = minifiedName (nameOffset pkgLevel) j []
           \<longrightarrow> i = j)
     \<and> (\<forall>pkgLevel s. s \<noteq> []
           \<and> (\<forall>ch\<in>set s. nameOffset pkgLevel \<le> of_char ch \<and> of_char ch \<le> nameOffset pkgLevel + 25)
           \<longrightarrow> (\<exists>i. minifiedName (nameOffset pkgLevel) i [] = s))
     \<and> (\<forall>d name pkgLevel v d'. minify (pctx d) \<and> newVariableWithLevel d name pkgLevel = Inr (v, d')
           \<longrightarrow> lookupVar (allVars d) v = 0)\<close>
proof -
  let ?m = \<open>\<lambda>l j. minifiedName (nameOffset l) j []\<close>
  from newVariables_minify [OF assms] obtain outs c' where
    r: \<open>newVariables c reqs = Inr (outs, c')\<close> and run: \<open>minifiedRun c reqs outs c'\<close>
    by blast
  from run have len: \<open>length outs = length reqs\<close> and d: \<open>distinct outs\<close>
    and l: \<open>\<And>x. lookupVar (allVars c') x = (if x \<in> set outs then 1 else lookupVar (allVars c) x)\<close>
    and z: \<open>\<And>v. v \<in> set outs \<Longrightarrow> lookupVar (allVars c) v = 0\<close>
    and f: \<open>\<And>k. k < length reqs \<Longrightarrow> \<exists>i. outs ! k = ?m (snd (reqs ! k)) i
           \<and> (\<forall>j<i. lookupVar (allVars c) (?m (snd (reqs ! k)) j) \<noteq> 0
                  \<or> ?m (snd (reqs ! k)) j \<in> set (take k outs))\<close>
    and a: \<open>list_all2 (\<lambda>r r'. \<forall>x. lookupVar r' x =
            (if x \<in> set (pkgLevelNames outs reqs) then 1 else lookupVar r x))
          (parentVars c) (parentVars c')\<close>
    by (simp_all add: minifiedRun_def)
  have inj: \<open>i = j\<close> if \<open>?m pl i = ?m pl j\<close> for pl i j
    using minifiedName_inj [OF nameOffset_bound that] .
  have c1: \<open>\<forall>k<length reqs. \<exists>i. outs ! k = ?m (snd (reqs ! k)) i
           \<and> lookupVar (allVars c) (outs ! k) = 0
           \<and> (\<forall>j<i. lookupVar (allVars c) (?m (snd (reqs ! k)) j) \<noteq> 0
                  \<or> ?m (snd (reqs ! k)) j \<in> set (take k outs))\<close>
  proof (intro allI impI)
    fix k assume k: \<open>k < length reqs\<close>
    with len have \<open>outs ! k \<in> set outs\<close> by simp
    from z [OF this] f [OF k]
    show \<open>\<exists>i. outs ! k = ?m (snd (reqs ! k)) i
           \<and> lookupVar (allVars c) (outs ! k) = 0
           \<and> (\<forall>j<i. lookupVar (allVars c) (?m (snd (reqs ! k)) j) \<noteq> 0
                  \<or> ?m (snd (reqs ! k)) j \<in> set (take k outs))\<close>
      by blast
  qed
  have c2: \<open>i < i'\<close>
    if \<open>k < k'\<close> \<open>k' < length reqs\<close> \<open>snd (reqs ! k) = snd (reqs ! k')\<close>
      \<open>outs ! k = ?m (snd (reqs ! k)) i\<close> \<open>outs ! k' = ?m (snd (reqs ! k')) i'\<close> for k k' i i'
  proof (rule ccontr)
    assume \<open>\<not> i < i'\<close>
    then consider \<open>i' = i\<close> | \<open>i' < i\<close> by linarith
    then show False
    proof cases
      case 1
      with that have \<open>outs ! k = outs ! k'\<close> by simp
      with d that(1,2) len show False by (simp add: nth_eq_iff_index_eq)
    next
      case 2
      from that have k: \<open>k < length reqs\<close> by simp
      from f [OF k] obtain i0 where
        i0: \<open>outs ! k = ?m (snd (reqs ! k)) i0\<close>
        \<open>\<forall>j<i0. lookupVar (allVars c) (?m (snd (reqs ! k)) j) \<noteq> 0
                  \<or> ?m (snd (reqs ! k)) j \<in> set (take k outs)\<close> by blast
      from inj [of \<open>snd (reqs ! k)\<close> i i0] that(4) i0(1) have \<open>i0 = i\<close> by simp
      with i0(2) 2 have \<open>lookupVar (allVars c) (?m (snd (reqs ! k)) i') \<noteq> 0
                  \<or> ?m (snd (reqs ! k)) i' \<in> set (take k outs)\<close> by blast
      with that(3,5) have \<open>lookupVar (allVars c) (outs ! k') \<noteq> 0 \<or> outs ! k' \<in> set (take k outs)\<close>
        by simp
      moreover have \<open>lookupVar (allVars c) (outs ! k') = 0\<close>
        using z [of \<open>outs ! k'\<close>] that(2) len by simp
      moreover have \<open>outs ! k' \<notin> set (take k outs)\<close>
      proof
        assume \<open>outs ! k' \<in> set (take k outs)\<close>
        then obtain n where \<open>n < k\<close> \<open>n < length outs\<close> \<open>outs ! n = outs ! k'\<close>
          by (auto simp: in_set_conv_nth)
        with d that(1,2) len show False by (simp add: nth_eq_iff_index_eq)
      qed
      ultimately show False by blast
    qed
  qed
  have c3: \<open>\<forall>k<length reqs. \<forall>ch\<in>set (outs ! k).
           if snd (reqs ! k) then CHR ''A'' \<le> ch \<and> ch \<le> CHR ''Z''
           else CHR ''a'' \<le> ch \<and> ch \<le> CHR ''z''\<close>
  proof (intro allI impI ballI)
    fix k ch assume k: \<open>k < length reqs\<close> and ch: \<open>ch \<in> set (outs ! k)\<close>
    from f [OF k] obtain i where \<open>outs ! k = ?m (snd (reqs ! k)) i\<close> by blast
    with ch minifiedName_letters [of ch \<open>snd (reqs ! k)\<close> i]
    show \<open>if snd (reqs ! k) then CHR ''A'' \<le> ch \<and> ch \<le> CHR ''Z''
           else CHR ''a'' \<le> ch \<and> ch \<le> CHR ''z''\<close> by simp
  qed
  have c4: \<open>length (parentVars c') = length (parentVars c)\<close>
    using list_all2_lengthD [OF a] by simp
  have c5: \<open>\<forall>k<length reqs. snd (reqs ! k) \<longrightarrow>
           lookupVar (allVars c') (outs ! k) = 1
           \<and> (\<forall>r\<in>set (parentVars c'). lookupVar r (outs ! k) = 1)\<close>
  proof (intro allI impI conjI ballI)
    fix k assume k: \<open>k < length reqs\<close> and pl: \<open>snd (reqs ! k)\<close>
    from k len show \<open>lookupVar (allVars c') (outs ! k) = 1\<close> by (simp add: l)
    fix r' assume \<open>r' \<in> set (parentVars c')\<close>
    then obtain n where n: \<open>n < length (parentVars c')\<close> \<open>parentVars c' ! n = r'\<close>
      by (auto simp: in_set_conv_nth)
    from list_all2_nthD2 [OF a n(1)] n(2)
    have \<open>lookupVar r' x = (if x \<in> set (pkgLevelNames outs reqs) then 1
                            else lookupVar (parentVars c ! n) x)\<close> for x by simp
    with pkgLevelNames_nth [OF k len pl] show \<open>lookupVar r' (outs ! k) = 1\<close> by simp
  qed
  have c6: \<open>\<forall>pkgLevel i j. ?m pkgLevel i = ?m pkgLevel j \<longrightarrow> i = j\<close>
    using inj by blast
  have c7: \<open>\<forall>pkgLevel s. s \<noteq> []
           \<and> (\<forall>ch\<in>set s. nameOffset pkgLevel \<le> of_char ch \<and> of_char ch \<le> nameOffset pkgLevel + 25)
           \<longrightarrow> (\<exists>i. ?m pkgLevel i = s)\<close>
    using minifiedName_unminify [OF nameOffset_bound] by blast
  have c8: \<open>\<forall>d name pkgLevel v d'. minify (pctx d) \<and> newVariableWithLevel d name pkgLevel = Inr (v, d')
           \<longrightarrow> lookupVar (allVars d) v = 0\<close>
    using newVariableWithLevel_minify_free by blast
  from c2 have c2': \<open>\<forall>k k' i i'. k < k' \<and> k' < length reqs \<and> snd (reqs ! k) = snd (reqs ! k')
           \<and> outs ! k = ?m (snd (reqs ! k)) i
           \<and> outs ! k' = ?m (snd (reqs ! k')) i' \<longrightarrow> i < i'\<close>
    by blast
  show ?thesis
    using r len d c1 c2' c3 c4 c5 c6 c7 c8 by (intro exI [of _ outs] exI [of _ c'] conjI)
qed

definition minifiedContext :: funcContext where
  \<open>minifiedContext =
     emptyFuncContext\<lparr>pctx := emptyPkgContext\<lparr>minify := True\<rparr>, allVars := [(''b'', 1)],
       parentVars := [[], [(''B'', 2)]]\<rparr>\<close>

lemma minifiedName_examples:
  \<open>minifiedName (nameOffset False) 0 [] = ''a''\<close>
  \<open>minifiedName (nameOffset False) 1 [] = ''b''\<close>
  \<open>minifiedName (nameOffset False) 2 [] = ''c''\<close>
  \<open>minifiedName (nameOffset False) 25 [] = ''z''\<close>
  \<open>minifiedName (nameOffset False) 26 [] = ''aa''\<close>
  \<open>minifiedName (nameOffset False) 701 [] = ''zz''\<close>
  \<open>minifiedName (nameOffset False) 702 [] = ''aaa''\<close>
  \<open>minifiedName (nameOffset True) 0 [] = ''A''\<close>
  \<open>minifiedName (nameOffset True) 1 [] = ''B''\<close>
  by code_simp+


lemma minifyLoop_hit:
  \<open>lookupVar r (minifiedName (nameOffset pkgLevel) i []) = 0 \<Longrightarrow>
     minifyLoop r pkgLevel i = minifiedName (nameOffset pkgLevel) i []\<close>
  by (subst minifyLoop.simps) (simp add: Let_def)

lemma minifyLoop_skip:
  \<open>lookupVar r (minifiedName (nameOffset pkgLevel) i []) \<noteq> 0 \<Longrightarrow>
     minifyLoop r pkgLevel i = minifyLoop r pkgLevel (Suc i)\<close>
  by (subst minifyLoop.simps) (simp add: Let_def)

lemma minifyLoop_examples:
  \<open>minifyLoop [(''b'', Suc 0)] False 0 = ''a''\<close>
  \<open>minifyLoop [(''b'', Suc 0), (''a'', Suc 0)] False 0 = ''c''\<close>
  \<open>minifyLoop [(''b'', Suc 0), (''a'', Suc 0), (''c'', Suc 0)] True 0 = ''A''\<close>
  \<open>minifyLoop [(''b'', Suc 0), (''a'', Suc 0), (''c'', Suc 0), (''A'', Suc 0)] True 0 = ''B''\<close>
proof -
  have n: \<open>minifiedName (nameOffset False) (Suc 0) [] = ''b''\<close>
    \<open>minifiedName (nameOffset False) (Suc (Suc 0)) [] = ''c''\<close>
    \<open>minifiedName (nameOffset True) (Suc 0) [] = ''B''\<close>
    by code_simp+
  note m = minifiedName_examples(1,8) n
  show \<open>minifyLoop [(''b'', Suc 0)] False 0 = ''a''\<close>
    by (subst minifyLoop_hit) (simp_all add: m lookupVar_def)
  have \<open>minifyLoop [(''b'', Suc 0), (''a'', Suc 0)] False 0 = minifyLoop [(''b'', Suc 0), (''a'', Suc 0)] False (Suc 0)\<close>
    by (rule minifyLoop_skip) (simp add: m lookupVar_def)
  also have \<open>\<dots> = minifyLoop [(''b'', Suc 0), (''a'', Suc 0)] False (Suc (Suc 0))\<close>
    by (rule minifyLoop_skip) (simp add: m lookupVar_def)
  also have \<open>\<dots> = ''c''\<close>
    by (subst minifyLoop_hit) (simp_all add: m lookupVar_def)
  finally show \<open>minifyLoop [(''b'', Suc 0), (''a'', Suc 0)] False 0 = ''c''\<close> .
  show \<open>minifyLoop [(''b'', Suc 0), (''a'', Suc 0), (''c'', Suc 0)] True 0 = ''A''\<close>
    by (subst minifyLoop_hit) (simp_all add: m lookupVar_def)
  have \<open>minifyLoop [(''b'', Suc 0), (''a'', Suc 0), (''c'', Suc 0), (''A'', Suc 0)] True 0
      = minifyLoop [(''b'', Suc 0), (''a'', Suc 0), (''c'', Suc 0), (''A'', Suc 0)] True (Suc 0)\<close>
    by (rule minifyLoop_skip) (simp add: m lookupVar_def)
  also have \<open>\<dots> = ''B''\<close>
    by (subst minifyLoop_hit) (simp_all add: m lookupVar_def)
  finally show \<open>minifyLoop [(''b'', Suc 0), (''a'', Suc 0), (''c'', Suc 0), (''A'', Suc 0)] True 0 = ''B''\<close> .
qed

lemma newVariableWithLevel_minify_eval:
  assumes \<open>minify (pctx c)\<close> \<open>name \<noteq> []\<close> \<open>minifyLoop (allVars c) pkgLevel 0 = v\<close>
    \<open>lookupVar (allVars c) v = 0\<close>
  shows \<open>newVariableWithLevel c name pkgLevel =
     Inr (v, if pkgLevel
             then c\<lparr>allVars := setVar (allVars c) v 1,
                    parentVars := map (\<lambda>r. setVar r v 1) (parentVars c)\<rparr>
             else c\<lparr>allVars := setVar (allVars c) v 1, localVars := localVars c @ [v]\<rparr>)\<close>
  using assms by (simp add: newVariableWithLevel_def Let_def varNameOf_def)

lemma minifiedContext_run:
  \<open>\<exists>c'. newVariables minifiedContext [(''i'', False), (''j'', False), (''x'', True), (''y'', True)]
     = Inr ([''a'', ''c'', ''A'', ''B''], c')\<close>
proof -
  define c1 where \<open>c1 = minifiedContext\<lparr>allVars := setVar (allVars minifiedContext) ''a'' 1,
    localVars := localVars minifiedContext @ [''a'']\<rparr>\<close>
  define c2 where \<open>c2 = c1\<lparr>allVars := setVar (allVars c1) ''c'' 1,
    localVars := localVars c1 @ [''c'']\<rparr>\<close>
  define c3 where \<open>c3 = c2\<lparr>allVars := setVar (allVars c2) ''A'' 1,
    parentVars := map (\<lambda>r. setVar r ''A'' 1) (parentVars c2)\<rparr>\<close>
  define c4 where \<open>c4 = c3\<lparr>allVars := setVar (allVars c3) ''B'' 1,
    parentVars := map (\<lambda>r. setVar r ''B'' 1) (parentVars c3)\<rparr>\<close>
  have m: \<open>minify (pctx minifiedContext)\<close> \<open>minify (pctx c1)\<close> \<open>minify (pctx c2)\<close>
    \<open>minify (pctx c3)\<close>
    by (simp_all add: c1_def c2_def c3_def minifiedContext_def)
  have a: \<open>allVars minifiedContext = [(''b'', 1)]\<close> \<open>allVars c1 = [(''b'', 1), (''a'', 1)]\<close>
    \<open>allVars c2 = [(''b'', 1), (''a'', 1), (''c'', 1)]\<close>
    \<open>allVars c3 = [(''b'', 1), (''a'', 1), (''c'', 1), (''A'', 1)]\<close>
    by (simp_all add: c1_def c2_def c3_def minifiedContext_def setVar_def)
  have s1: \<open>newVariableWithLevel minifiedContext ''i'' False = Inr (''a'', c1)\<close>
    by (subst newVariableWithLevel_minify_eval [where v = \<open>''a''\<close>])
      (simp_all add: m a minifyLoop_examples lookupVar_def c1_def)
  have s2: \<open>newVariableWithLevel c1 ''j'' False = Inr (''c'', c2)\<close>
    by (subst newVariableWithLevel_minify_eval [where v = \<open>''c''\<close>])
      (simp_all add: m a minifyLoop_examples lookupVar_def c2_def)
  have s3: \<open>newVariableWithLevel c2 ''x'' True = Inr (''A'', c3)\<close>
    by (subst newVariableWithLevel_minify_eval [where v = \<open>''A''\<close>])
      (simp_all add: m a minifyLoop_examples lookupVar_def c3_def)
  have s4: \<open>newVariableWithLevel c3 ''y'' True = Inr (''B'', c4)\<close>
    by (subst newVariableWithLevel_minify_eval [where v = \<open>''B''\<close>])
      (simp_all add: m a minifyLoop_examples lookupVar_def c4_def)
  show ?thesis by (simp add: s1 s2 s3 s4)
qed

theorem minified_names_ordered_witness:
  \<open>minify (pctx minifiedContext)
   \<and> (\<exists>c'. newVariables minifiedContext [(''i'', False), (''j'', False), (''x'', True), (''y'', True)]
            = Inr ([''a'', ''c'', ''A'', ''B''], c')
          \<and> length (parentVars c') = 2
          \<and> lookupVar (allVars c') ''A'' = 1
          \<and> lookupVar (parentVars c' ! 0) ''A'' = 1
          \<and> lookupVar (parentVars c' ! 1) ''B'' = 1)
   \<and> distinct [''a'', ''c'', ''A'', ''B'']
   \<and> lookupVar (allVars minifiedContext) ''b'' = 1\<close>
proof -
  let ?reqs = \<open>[(''i'', False), (''j'', False), (''x'', True), (''y'', True)]\<close>
  let ?outs = \<open>[''a'', ''c'', ''A'', ''B'']\<close>
  have m: \<open>minify (pctx minifiedContext)\<close> by (simp add: minifiedContext_def)
  have ne: \<open>\<forall>req\<in>set ?reqs. fst req \<noteq> []\<close> by simp
  have b: \<open>lookupVar (allVars minifiedContext) ''b'' = 1\<close>
    by (simp add: minifiedContext_def lookupVar_def)
  have p: \<open>length (parentVars minifiedContext) = 2\<close>
    by (simp add: minifiedContext_def emptyFuncContext_def)
  from minifiedContext_run obtain c0 where
    c0: \<open>newVariables minifiedContext ?reqs = Inr (?outs, c0)\<close> by blast
  from minified_names_ordered [OF m ne] obtain outs c' where
    r: \<open>newVariables minifiedContext ?reqs = Inr (outs, c')\<close> \<open>distinct outs\<close>
    and l: \<open>length (parentVars c') = length (parentVars minifiedContext)\<close>
    and a: \<open>\<forall>k<length ?reqs. snd (?reqs ! k) \<longrightarrow>
           lookupVar (allVars c') (outs ! k) = 1
           \<and> (\<forall>r\<in>set (parentVars c'). lookupVar r (outs ! k) = 1)\<close>
    by (elim exE conjE) (rule that, assumption+)
  from r(1) [symmetric] c0 have \<open>Inr (outs, c') = (Inr (?outs, c0) :: error + string list \<times> funcContext)\<close>
    by (rule trans)
  then have o: \<open>outs = ?outs\<close> \<open>c' = c0\<close> by simp_all
  from l p have l': \<open>length (parentVars c') = 2\<close> by simp
  then have in0: \<open>parentVars c' ! 0 \<in> set (parentVars c')\<close>
    and in1: \<open>parentVars c' ! 1 \<in> set (parentVars c')\<close> by simp_all
  have k2: \<open>2 < length ?reqs\<close> \<open>snd (?reqs ! 2)\<close> and k3: \<open>3 < length ?reqs\<close> \<open>snd (?reqs ! 3)\<close>
    by simp_all
  have e: \<open>outs ! 2 = ''A''\<close> \<open>outs ! 3 = ''B''\<close> by (simp_all add: o(1))
  from a k2 have \<open>lookupVar (allVars c') (outs ! 2) = 1
           \<and> (\<forall>r\<in>set (parentVars c'). lookupVar r (outs ! 2) = 1)\<close> by blast
  with in0 have a2: \<open>lookupVar (allVars c') ''A'' = 1\<close>
    and a2': \<open>lookupVar (parentVars c' ! 0) ''A'' = 1\<close> unfolding e by blast+
  from a k3 have \<open>lookupVar (allVars c') (outs ! 3) = 1
           \<and> (\<forall>r\<in>set (parentVars c'). lookupVar r (outs ! 3) = 1)\<close> by blast
  with in1 have a3: \<open>lookupVar (parentVars c' ! 1) ''B'' = 1\<close> unfolding e by blast
  from r(1) have r': \<open>newVariables minifiedContext ?reqs = Inr (?outs, c')\<close>
    by (simp only: o(1))
  have cj: \<open>newVariables minifiedContext ?reqs = Inr (?outs, c')
          \<and> length (parentVars c') = 2
          \<and> lookupVar (allVars c') ''A'' = 1
          \<and> lookupVar (parentVars c' ! 0) ''A'' = 1
          \<and> lookupVar (parentVars c' ! 1) ''B'' = 1\<close>
    by (rule conjI [OF r' conjI [OF l' conjI [OF a2 conjI [OF a2' a3]]]])
  have ex: \<open>\<exists>c'. newVariables minifiedContext ?reqs = Inr (?outs, c')
          \<and> length (parentVars c') = 2
          \<and> lookupVar (allVars c') ''A'' = 1
          \<and> lookupVar (parentVars c' ! 0) ''A'' = 1
          \<and> lookupVar (parentVars c' ! 1) ''B'' = 1\<close>
    by (rule exI [of _ c']) (rule cj)
  from r(2) have dist: \<open>distinct ?outs\<close> by (simp only: o(1))
  show ?thesis by (rule conjI [OF m conjI [OF ex conjI [OF dist b]]])
qed

section \<open>Type descriptor resolver\<close>

unbundle bit_operations_syntax

text \<open>
  The predeclared basic types, as \<^verbatim>\<open>go/types\<close> lists them in its table \<^verbatim>\<open>Typ\<close> (kind, flags,
  name); \<^verbatim>\<open>byte\<close> and \<^verbatim>\<open>rune\<close> are the aliases of kind \<^verbatim>\<open>Uint8\<close> and \<^verbatim>\<open>Int32\<close>.
\<close>

fun Typ :: "BasicKind \<Rightarrow> basic" where
  \<open>Typ Invalid = \<lparr>Kind = Invalid, Info = 0, BasicName = ''invalid type''\<rparr>\<close>
| \<open>Typ Bool = \<lparr>Kind = Bool, Info = IsBoolean, BasicName = ''bool''\<rparr>\<close>
| \<open>Typ Int' = \<lparr>Kind = Int', Info = IsInteger, BasicName = ''int''\<rparr>\<close>
| \<open>Typ Int8 = \<lparr>Kind = Int8, Info = IsInteger, BasicName = ''int8''\<rparr>\<close>
| \<open>Typ Int16 = \<lparr>Kind = Int16, Info = IsInteger, BasicName = ''int16''\<rparr>\<close>
| \<open>Typ Int32 = \<lparr>Kind = Int32, Info = IsInteger, BasicName = ''int32''\<rparr>\<close>
| \<open>Typ Int64 = \<lparr>Kind = Int64, Info = IsInteger, BasicName = ''int64''\<rparr>\<close>
| \<open>Typ Uint = \<lparr>Kind = Uint, Info = IsInteger OR IsUnsigned, BasicName = ''uint''\<rparr>\<close>
| \<open>Typ Uint8 = \<lparr>Kind = Uint8, Info = IsInteger OR IsUnsigned, BasicName = ''uint8''\<rparr>\<close>
| \<open>Typ Uint16 = \<lparr>Kind = Uint16, Info = IsInteger OR IsUnsigned, BasicName = ''uint16''\<rparr>\<close>
| \<open>Typ Uint32 = \<lparr>Kind = Uint32, Info = IsInteger OR IsUnsigned, BasicName = ''uint32''\<rparr>\<close>
| \<open>Typ Uint64 = \<lparr>Kind = Uint64, Info = IsInteger OR IsUnsigned, BasicName = ''uint64''\<rparr>\<close>
| \<open>Typ Uintptr = \<lparr>Kind = Uintptr, Info = IsInteger OR IsUnsigned, BasicName = ''uintptr''\<rparr>\<close>
| \<open>Typ Float32 = \<lparr>Kind = Float32, Info = IsFloat, BasicName = ''float32''\<rparr>\<close>
| \<open>Typ Float64 = \<lparr>Kind = Float64, Info = IsFloat, BasicName = ''float64''\<rparr>\<close>
| \<open>Typ Complex64 = \<lparr>Kind = Complex64, Info = IsComplex, BasicName = ''complex64''\<rparr>\<close>
| \<open>Typ Complex128 = \<lparr>Kind = Complex128, Info = IsComplex, BasicName = ''complex128''\<rparr>\<close>
| \<open>Typ String = \<lparr>Kind = String, Info = IsString, BasicName = ''string''\<rparr>\<close>
| \<open>Typ UnsafePointer = \<lparr>Kind = UnsafePointer, Info = 0, BasicName = ''unsafe.Pointer''\<rparr>\<close>
| \<open>Typ UntypedBool = \<lparr>Kind = UntypedBool, Info = IsBoolean OR IsUntyped, BasicName = ''untyped bool''\<rparr>\<close>
| \<open>Typ UntypedInt = \<lparr>Kind = UntypedInt, Info = IsInteger OR IsUntyped, BasicName = ''untyped int''\<rparr>\<close>
| \<open>Typ UntypedRune = \<lparr>Kind = UntypedRune, Info = IsInteger OR IsUntyped, BasicName = ''untyped rune''\<rparr>\<close>
| \<open>Typ UntypedFloat = \<lparr>Kind = UntypedFloat, Info = IsFloat OR IsUntyped, BasicName = ''untyped float''\<rparr>\<close>
| \<open>Typ UntypedComplex =
     \<lparr>Kind = UntypedComplex, Info = IsComplex OR IsUntyped, BasicName = ''untyped complex''\<rparr>\<close>
| \<open>Typ UntypedString =
     \<lparr>Kind = UntypedString, Info = IsString OR IsUntyped, BasicName = ''untyped string''\<rparr>\<close>
| \<open>Typ UntypedNil = \<lparr>Kind = UntypedNil, Info = IsUntyped, BasicName = ''untyped nil''\<rparr>\<close>

definition ByteType :: basic where
  \<open>ByteType = \<lparr>Kind = Uint8, Info = IsInteger OR IsUnsigned, BasicName = ''byte''\<rparr>\<close>

definition RuneType :: basic where
  \<open>RuneType = \<lparr>Kind = Int32, Info = IsInteger, BasicName = ''rune''\<rparr>\<close>

definition is64Bit :: "basic \<Rightarrow> bool" where
  \<open>is64Bit t \<longleftrightarrow> Kind t = Int64 \<or> Kind t = Uint64\<close>

definition isBoolean :: "basic \<Rightarrow> bool" where
  \<open>isBoolean t \<longleftrightarrow> Info t AND IsBoolean \<noteq> 0\<close>

definition isComplex :: "basic \<Rightarrow> bool" where
  \<open>isComplex t \<longleftrightarrow> Info t AND IsComplex \<noteq> 0\<close>

definition isFloat :: "basic \<Rightarrow> bool" where
  \<open>isFloat t \<longleftrightarrow> Info t AND IsFloat \<noteq> 0\<close>

definition isInteger :: "basic \<Rightarrow> bool" where
  \<open>isInteger t \<longleftrightarrow> Info t AND IsInteger \<noteq> 0\<close>

definition isNumeric :: "basic \<Rightarrow> bool" where
  \<open>isNumeric t \<longleftrightarrow> Info t AND IsNumeric \<noteq> 0\<close>

definition isString :: "basic \<Rightarrow> bool" where
  \<open>isString t \<longleftrightarrow> Info t AND IsString \<noteq> 0\<close>

definition isUnsigned :: "basic \<Rightarrow> bool" where
  \<open>isUnsigned t \<longleftrightarrow> Info t AND IsUnsigned \<noteq> 0\<close>

text \<open>
  \<^verbatim>\<open>Underlying()\<close> of a named type is the type of its declaration, which the type checker
  holds; \<open>und\<close> is that table. Every other type is its own underlying type.
\<close>

fun Underlying :: "(object \<Rightarrow> ty) \<Rightarrow> ty \<Rightarrow> ty" where
  \<open>Underlying und (Named obj) = und obj\<close>
| \<open>Underlying und t = t\<close>

text \<open>\<^verbatim>\<open>strings.ToUpper\<close> and \<^verbatim>\<open>strings.ToLower\<close> on ASCII text; \<^verbatim>\<open>ToUpper\<close> is applied to one
  byte, and a byte that is not ASCII is not valid UTF-8 on its own, which the library
  replaces by U+FFFD.\<close>

definition upperByte :: "byte \<Rightarrow> string" where
  \<open>upperByte ch =
     (if CHR ''a'' \<le> ch \<and> ch \<le> CHR ''z'' then [char_of (of_char ch - (32 :: nat))]
      else if ch < CHR 0x80 then [ch]
      else [CHR 0xEF, CHR 0xBF, CHR 0xBD])\<close>

definition lowerByte :: "byte \<Rightarrow> byte" where
  \<open>lowerByte ch =
     (if CHR ''A'' \<le> ch \<and> ch \<le> CHR ''Z'' then char_of (of_char ch + (32 :: nat)) else ch)\<close>

definition toJavaScriptType :: "basic \<Rightarrow> error + string" where
  \<open>toJavaScriptType t =
     (if Kind t = UntypedInt then Inr ''Int''
      else if Kind t = Uint8 then Inr ''Uint8''
      else if Kind t = Int32 then Inr ''Int32''
      else if Kind t = UnsafePointer then Inr ''UnsafePointer''
      else
        (case BasicName t of
           [] \<Rightarrow> Inl sliceOutOfRange
         | ch # rest \<Rightarrow> Inr (upperByte ch @ rest)))\<close>

definition unhandledType :: "string \<Rightarrow> error" where
  \<open>unhandledType dynType = Panic (''Unhandled type: '' @ dynType @ [NL])\<close>

definition typeKind :: "(object \<Rightarrow> ty) \<Rightarrow> ty \<Rightarrow> error + string" where
  \<open>typeKind und ty =
     (case Underlying und ty of
        Basic t \<Rightarrow> (case toJavaScriptType t of Inl e \<Rightarrow> Inl e | Inr s \<Rightarrow> Inr (''$kind'' @ s))
      | Array _ _ \<Rightarrow> Inr ''$kindArray''
      | Chan _ _ \<Rightarrow> Inr ''$kindChan''
      | Interface _ \<Rightarrow> Inr ''$kindInterface''
      | Map _ _ \<Rightarrow> Inr ''$kindMap''
      | Signature _ _ _ \<Rightarrow> Inr ''$kindFunc''
      | Slice _ \<Rightarrow> Inr ''$kindSlice''
      | Struct _ \<Rightarrow> Inr ''$kindStruct''
      | Pointer _ \<Rightarrow> Inr ''$kindPtr''
      | Named _ \<Rightarrow> Inl (unhandledType ''*types.Named'')
      | Tuple _ \<Rightarrow> Inl (unhandledType ''*types.Tuple''))\<close>

definition nilDereference :: error where
  \<open>nilDereference = Panic ''runtime error: invalid memory address or nil pointer dereference''\<close>

definition addDependency :: "funcContext \<Rightarrow> object \<Rightarrow> funcContext" where
  \<open>addDependency c obj = c\<lparr>pctx := (pctx c)\<lparr>dependencies := insert obj (dependencies (pctx c))\<rparr>\<rparr>\<close>

definition objectName :: "funcContext \<Rightarrow> object \<Rightarrow> error + (string \<times> funcContext)" where
  \<open>objectName c obj =
     (let pkg = Pkg (pctx c);
          pkgLevel = (Parent obj = Some (Scope pkg));
          c = (if ObjPkg obj \<noteq> Some pkg \<or> pkgLevel then addDependency c obj else c)
      in
        if ObjPkg obj \<noteq> Some pkg then
          (case ObjPkg obj of
             None \<Rightarrow> Inl nilDereference
           | Some opkg \<Rightarrow>
               let pkgVar = (case pkgVars (pctx c) (Path opkg) of
                               Some v \<Rightarrow> v
                             | None \<Rightarrow> ''$packages["'' @ Path opkg @ ''"]'')
               in Inr (pkgVar @ ''.'' @ Name obj, c))
        else if (Class obj = Var \<or> Class obj = Const) \<and> Exported obj \<and> pkgLevel then
          Inr (''$pkg.'' @ Name obj, c)
        else
          (case (case objectNames (pctx c) obj of
                   Some name \<Rightarrow> Inr (name, c)
                 | None \<Rightarrow>
                     (case newVariableWithLevel c (Name obj) pkgLevel of
                        Inl e \<Rightarrow> Inl e
                      | Inr (name, c) \<Rightarrow>
                          Inr (name, c\<lparr>pctx := (pctx c)\<lparr>objectNames :=
                                        (objectNames (pctx c))(obj \<mapsto> name)\<rparr>\<rparr>))) of
             Inl e \<Rightarrow> Inl e
           | Inr (name, c) \<Rightarrow>
               if Class obj = Var \<and> obj \<in> escapingVars (pctx c) then Inr (name @ ''[0]'', c)
               else Inr (name, c)))\<close>

text \<open>
  Modelled from the spec: \<^verbatim>\<open>typesutil.IsJsObject\<close> is not part of this file. The spec calls its
  subject the opaque interop-object type; it is the pointer to the named type \<^verbatim>\<open>Object\<close> of the
  package \<^verbatim>\<open>github.com/gopherjs/gopherjs/js\<close>.
\<close>

definition IsJsObject :: "ty \<Rightarrow> bool" where
  \<open>IsJsObject t =
     (case t of
        Pointer (Named obj) \<Rightarrow>
          Name obj = ''Object''
          \<and> (case ObjPkg obj of
                 Some opkg \<Rightarrow> Path opkg = ''github.com/gopherjs/gopherjs/js''
               | None \<Rightarrow> False)
      | _ \<Rightarrow> False)\<close>

text \<open>\<^verbatim>\<open>types.NewTypeName(token.NoPos, c.p.Pkg, varName, ty)\<close>: an object of no scope. Its
  \<^verbatim>\<open>Exported()\<close> is read off the name, which is ASCII here.\<close>

definition IsExported :: "string \<Rightarrow> bool" where
  \<open>IsExported name = (case name of [] \<Rightarrow> False | ch # _ \<Rightarrow> CHR ''A'' \<le> ch \<and> ch \<le> CHR ''Z'')\<close>

definition NewTypeName :: "package \<Rightarrow> string \<Rightarrow> object" where
  \<open>NewTypeName pkg name =
     \<lparr>Class = TypeName, Name = name, ObjPkg = Some pkg, Parent = None, Exported = IsExported name\<rparr>\<close>

definition registerAnonType :: "funcContext \<Rightarrow> ty \<Rightarrow> object \<Rightarrow> funcContext" where
  \<open>registerAnonType c ty anonType =
     c\<lparr>pctx := (pctx c)\<lparr>anonTypes := anonTypes (pctx c) @ [anonType],
                          anonTypeMap := (anonTypeMap (pctx c))(ty \<mapsto> anonType)\<rparr>\<rparr>\<close>

text \<open>
  The part of \<^verbatim>\<open>typeName\<close> that follows \<^verbatim>\<open>initArgs\<close> when the type is not yet registered:
  allocate the package-level name, make the fake \<^verbatim>\<open>types.TypeName\<close> and register it.
\<close>

definition newAnonType :: "(object \<Rightarrow> ty) \<Rightarrow> funcContext \<Rightarrow> ty \<Rightarrow> error + (object \<times> funcContext)" where
  \<open>newAnonType und c ty =
     (case typeKind und ty of
        Inl e \<Rightarrow> Inl e
      | Inr kind \<Rightarrow>
          (case newVariableWithLevel c (map lowerByte (drop 5 kind) @ ''Type'') True of
             Inl e \<Rightarrow> Inl e
           | Inr (varName, c) \<Rightarrow>
               let anonType = NewTypeName (Pkg (pctx c)) varName
               in Inr (anonType, registerAnonType c ty anonType)))\<close>

text \<open>
  \<^verbatim>\<open>typeName\<close>. \<^verbatim>\<open>initArgs\<close> is called for its effect only.

  Modelled from the spec: \<^verbatim>\<open>initArgs\<close> is not part of this file. By the spec, resolving an
  anonymous type forces the resolution of its embedded and contained types first: the element
  of an array, slice, pointer or channel, key and element of a map, the field types of a
  struct, the parameter and result types of a signature, the method types of an interface,
  each through \<^verbatim>\<open>typeName\<close>, in this order.
\<close>

function typeName :: "(object \<Rightarrow> ty) \<Rightarrow> funcContext \<Rightarrow> ty \<Rightarrow> error + (string \<times> funcContext)"
  and initArgs :: "(object \<Rightarrow> ty) \<Rightarrow> funcContext \<Rightarrow> ty \<Rightarrow> error + funcContext"
  and typeNames :: "(object \<Rightarrow> ty) \<Rightarrow> funcContext \<Rightarrow> ty list \<Rightarrow> error + funcContext"
  and fieldTypeNames :: "(object \<Rightarrow> ty) \<Rightarrow> funcContext \<Rightarrow> field list \<Rightarrow> error + funcContext"
  and methodTypeNames ::
    "(object \<Rightarrow> ty) \<Rightarrow> funcContext \<Rightarrow> (string \<times> ty) list \<Rightarrow> error + funcContext" where
  \<open>typeName und c ty =
     (case ty of
        Basic t \<Rightarrow> (case toJavaScriptType t of Inl e \<Rightarrow> Inl e | Inr s \<Rightarrow> Inr (''$'' @ s, c))
      | Named obj \<Rightarrow> (if Name obj = ''error'' then Inr (''$error'', c) else objectName c obj)
      | _ \<Rightarrow>
          if ty = Interface [] then Inr (''$emptyInterface'', c)
          else
            (case (case anonTypeMap (pctx c) ty of
                     Some anonType \<Rightarrow> Inr (anonType, c)
                   | None \<Rightarrow>
                       (case initArgs und c ty of
                          Inl e \<Rightarrow> Inl e
                        | Inr c \<Rightarrow> newAnonType und c ty)) of
               Inl e \<Rightarrow> Inl e
             | Inr (anonType, c) \<Rightarrow> Inr (Name anonType, addDependency c anonType)))\<close>
| \<open>initArgs und c ty =
     (case ty of
        Array n elem \<Rightarrow> (case typeName und c elem of Inl e \<Rightarrow> Inl e | Inr (s, c) \<Rightarrow> Inr c)
      | Slice elem \<Rightarrow> (case typeName und c elem of Inl e \<Rightarrow> Inl e | Inr (s, c) \<Rightarrow> Inr c)
      | Pointer elem \<Rightarrow> (case typeName und c elem of Inl e \<Rightarrow> Inl e | Inr (s, c) \<Rightarrow> Inr c)
      | Chan dir elem \<Rightarrow> (case typeName und c elem of Inl e \<Rightarrow> Inl e | Inr (s, c) \<Rightarrow> Inr c)
      | Map key elem \<Rightarrow>
          (case typeName und c key of
             Inl e \<Rightarrow> Inl e
           | Inr (s, c) \<Rightarrow> (case typeName und c elem of Inl e \<Rightarrow> Inl e | Inr (s, c) \<Rightarrow> Inr c))
      | Struct fs \<Rightarrow> fieldTypeNames und c fs
      | Signature params results variadic \<Rightarrow>
          (case typeNames und c params of Inl e \<Rightarrow> Inl e | Inr c \<Rightarrow> typeNames und c results)
      | Interface methods \<Rightarrow> methodTypeNames und c methods
      | _ \<Rightarrow> Inr c)\<close>
| \<open>typeNames und c [] = Inr c\<close>
| \<open>typeNames und c (t # ts) =
     (case typeName und c t of Inl e \<Rightarrow> Inl e | Inr (s, c) \<Rightarrow> typeNames und c ts)\<close>
| \<open>fieldTypeNames und c [] = Inr c\<close>
| \<open>fieldTypeNames und c (f # fs) =
     (case typeName und c (FieldType f) of
        Inl e \<Rightarrow> Inl e
      | Inr (s, c) \<Rightarrow> fieldTypeNames und c fs)\<close>
| \<open>methodTypeNames und c [] = Inr c\<close>
| \<open>methodTypeNames und c (m # ms) =
     (case typeName und c (snd m) of
        Inl e \<Rightarrow> Inl e
      | Inr (s, c) \<Rightarrow> methodTypeNames und c ms)\<close>
  by pat_completeness auto
termination typeName
  apply (relation \<open>measure (\<lambda>x. case x of
      Inl (Inl (und, c, ty)) \<Rightarrow> 2 * size ty + 1
    | Inl (Inr (und, c, ty)) \<Rightarrow> 2 * size ty
    | Inr (Inl (und, c, ts)) \<Rightarrow> 2 * size_list size ts + 1
    | Inr (Inr (Inl (und, c, fs))) \<Rightarrow> 2 * size_list size fs + 1
    | Inr (Inr (Inr (und, c, ms))) \<Rightarrow> 2 * size_list (size_prod (\<lambda>x. 0) size) ms + 1)\<close>)
  apply simp_all
  subgoal for f fs by (cases f) simp
  subgoal for m ms by (cases m) simp
  done

declare typeName.simps [simp del] initArgs.simps [simp del]

section \<open>Zero values\<close>

definition zeroValue :: "(object \<Rightarrow> ty) \<Rightarrow> funcContext \<Rightarrow> ty \<Rightarrow> error + (string \<times> funcContext)" where
  \<open>zeroValue und c ty =
     (if IsJsObject ty then Inr (''null'', c)
      else
        (case Underlying und ty of
           Basic t \<Rightarrow>
             if is64Bit t \<or> isComplex t then
               (case typeName und c ty of
                  Inl e \<Rightarrow> Inl e
                | Inr (s, c) \<Rightarrow> Inr (''new '' @ s @ ''(0, 0)'', c))
             else if isBoolean t then Inr (''false'', c)
             else if isNumeric t \<or> Kind t = UnsafePointer then Inr (''0'', c)
             else if isString t then Inr ([QUOTE, QUOTE], c)
             else if Kind t = UntypedNil then Inl (Panic ''Zero value for untyped nil.'')
             else Inl (Panic ''Unhandled type'')
         | Array _ _ \<Rightarrow>
             (case typeName und c ty of Inl e \<Rightarrow> Inl e | Inr (s, c) \<Rightarrow> Inr (s @ ''.zero()'', c))
         | Signature _ _ _ \<Rightarrow> Inr (''$throwNilPointerError'', c)
         | Slice _ \<Rightarrow>
             (case typeName und c ty of Inl e \<Rightarrow> Inl e | Inr (s, c) \<Rightarrow> Inr (s @ ''.nil'', c))
         | Struct _ \<Rightarrow>
             (case typeName und c ty of
                Inl e \<Rightarrow> Inl e
              | Inr (s, c) \<Rightarrow> Inr (''new '' @ s @ ''.ptr()'', c))
         | Map _ _ \<Rightarrow> Inr (''false'', c)
         | Interface _ \<Rightarrow> Inr (''$ifaceNil'', c)
         | _ \<Rightarrow>
             (case typeName und c ty of Inl e \<Rightarrow> Inl e | Inr (s, c) \<Rightarrow> Inr (s @ ''.nil'', c))))\<close>

definition noDecls :: "object \<Rightarrow> ty" where
  \<open>noDecls obj = Basic (Typ Invalid)\<close>

subsection \<open>Anonymous types and well-formed types\<close>

text \<open>\<open>anonymous ty\<close>: \<^verbatim>\<open>typeName\<close> resolves \<open>ty\<close> through the registry of anonymous types.\<close>

definition anonymous :: "ty \<Rightarrow> bool" where
  \<open>anonymous ty = (case ty of Basic _ \<Rightarrow> False | Named _ \<Rightarrow> False | _ \<Rightarrow> ty \<noteq> Interface [])\<close>

text \<open>
  \<open>wfType ty\<close>: \<open>ty\<close> is the type of a value as the type checker builds it. No tuple occurs
  in it, every basic type has a name, and every named type other than \<^verbatim>\<open>error\<close> has an object
  with a name and a package.
\<close>

function wfType :: "ty \<Rightarrow> bool"
  and wfTypes :: "ty list \<Rightarrow> bool"
  and wfFields :: "field list \<Rightarrow> bool"
  and wfMethods :: "(string \<times> ty) list \<Rightarrow> bool" where
  \<open>wfType (Basic t) = (BasicName t \<noteq> [])\<close>
| \<open>wfType (Named obj) = (Name obj = ''error'' \<or> (Name obj \<noteq> [] \<and> ObjPkg obj \<noteq> None))\<close>
| \<open>wfType (Array n elem) = wfType elem\<close>
| \<open>wfType (Slice elem) = wfType elem\<close>
| \<open>wfType (Struct fs) = wfFields fs\<close>
| \<open>wfType (Pointer elem) = wfType elem\<close>
| \<open>wfType (Tuple ts) = False\<close>
| \<open>wfType (Signature params results variadic) = (wfTypes params \<and> wfTypes results)\<close>
| \<open>wfType (Interface methods) = wfMethods methods\<close>
| \<open>wfType (Map key elem) = (wfType key \<and> wfType elem)\<close>
| \<open>wfType (Chan dir elem) = wfType elem\<close>
| \<open>wfTypes [] = True\<close>
| \<open>wfTypes (t # ts) = (wfType t \<and> wfTypes ts)\<close>
| \<open>wfFields [] = True\<close>
| \<open>wfFields (f # fs) = (wfType (FieldType f) \<and> wfFields fs)\<close>
| \<open>wfMethods [] = True\<close>
| \<open>wfMethods (m # ms) = (wfType (snd m) \<and> wfMethods ms)\<close>
  by pat_completeness auto
termination wfType
  apply (relation \<open>measure (\<lambda>x. case x of
      Inl (Inl ty) \<Rightarrow> size ty
    | Inl (Inr ts) \<Rightarrow> size_list size ts
    | Inr (Inl fs) \<Rightarrow> size_list size fs
    | Inr (Inr ms) \<Rightarrow> size_list (size_prod (\<lambda>x. 0) size) ms)\<close>)
  apply simp_all
  subgoal for f fs by (cases f) simp
  subgoal for m ms by (cases m) simp
  done

subsection \<open>Equations of \<open>typeName\<close>\<close>

lemma typeName_Basic:
  \<open>typeName und c (Basic t) =
     (case toJavaScriptType t of Inl e \<Rightarrow> Inl e | Inr s \<Rightarrow> Inr (''$'' @ s, c))\<close>
  by (simp add: typeName.simps)

lemma typeName_Named:
  \<open>typeName und c (Named obj) =
     (if Name obj = ''error'' then Inr (''$error'', c) else objectName c obj)\<close>
  by (simp add: typeName.simps)

lemma typeName_emptyInterface: \<open>typeName und c (Interface []) = Inr (''$emptyInterface'', c)\<close>
  by (simp add: typeName.simps)

lemma typeName_known:
  assumes \<open>anonymous ty\<close> \<open>anonTypeMap (pctx c) ty = Some anonType\<close>
  shows \<open>typeName und c ty = Inr (Name anonType, addDependency c anonType)\<close>
  using assms by (subst typeName.simps) (simp add: anonymous_def split: ty.splits)

lemma typeName_new:
  assumes \<open>anonymous ty\<close> \<open>anonTypeMap (pctx c) ty = None\<close>
  shows \<open>typeName und c ty =
     (case initArgs und c ty of
        Inl e \<Rightarrow> Inl e
      | Inr c \<Rightarrow>
          (case newAnonType und c ty of
             Inl e \<Rightarrow> Inl e
           | Inr (anonType, c) \<Rightarrow> Inr (Name anonType, addDependency c anonType)))\<close>
  using assms
  by (subst typeName.simps) (simp add: anonymous_def split: ty.splits sum.splits)

subsection \<open>Resolution succeeds on well-formed types\<close>

lemma newVariableWithLevel_total:
  \<open>name \<noteq> [] \<Longrightarrow> \<exists>v c'. newVariableWithLevel c name pkgLevel = Inr (v, c')\<close>
  by (simp add: newVariableWithLevel_def Let_def)

lemma objectName_total:
  assumes \<open>ObjPkg obj \<noteq> None\<close> \<open>Name obj \<noteq> []\<close>
  shows \<open>\<exists>s c'. objectName c obj = Inr (s, c')\<close>
proof -
  define c1 where \<open>c1 = (if ObjPkg obj \<noteq> Some (Pkg (pctx c)) \<or> Parent obj = Some (Scope (Pkg (pctx c)))
    then addDependency c obj else c)\<close>
  from newVariableWithLevel_total [OF assms(2), of c1 \<open>Parent obj = Some (Scope (Pkg (pctx c)))\<close>]
  obtain v c' where \<open>newVariableWithLevel c1 (Name obj) (Parent obj = Some (Scope (Pkg (pctx c))))
    = Inr (v, c')\<close> by blast
  with assms(1) show ?thesis
    unfolding objectName_def Let_def c1_def [symmetric]
    by (auto split: option.splits)
qed

lemma toJavaScriptType_total: \<open>BasicName t \<noteq> [] \<Longrightarrow> \<exists>s. toJavaScriptType t = Inr s\<close>
  by (cases \<open>BasicName t\<close>) (simp_all add: toJavaScriptType_def)

lemma typeKind_anonymous:
  assumes \<open>anonymous ty\<close> \<open>\<forall>ts. ty \<noteq> Tuple ts\<close>
  shows \<open>\<exists>kind. typeKind und ty = Inr kind\<close>
  using assms by (cases ty) (simp_all add: typeKind_def anonymous_def)

lemma newAnonType_total:
  assumes \<open>anonymous ty\<close> \<open>\<forall>ts. ty \<noteq> Tuple ts\<close>
  shows \<open>\<exists>anonType c'. newAnonType und c ty = Inr (anonType, c')\<close>
proof -
  from typeKind_anonymous [OF assms] obtain kind where k: \<open>typeKind und ty = Inr kind\<close> by blast
  from newVariableWithLevel_total [of \<open>map lowerByte (drop 5 kind) @ ''Type''\<close> c True]
  obtain v c' where \<open>newVariableWithLevel c (map lowerByte (drop 5 kind) @ ''Type'') True = Inr (v, c')\<close>
    by auto
  with k show ?thesis by (simp add: newAnonType_def Let_def)
qed

lemma typeName_total_mutual:
  \<open>wfType ty \<longrightarrow> (\<exists>s c'. typeName und c ty = Inr (s, c'))\<close>
  \<open>wfType ty2 \<longrightarrow> (\<exists>c'. initArgs und2 c2 ty2 = Inr c')\<close>
  \<open>wfTypes ts \<longrightarrow> (\<exists>c'. typeNames und3 c3 ts = Inr c')\<close>
  \<open>wfFields fs \<longrightarrow> (\<exists>c'. fieldTypeNames und4 c4 fs = Inr c')\<close>
  \<open>wfMethods ms \<longrightarrow> (\<exists>c'. methodTypeNames und5 c5 ms = Inr c')\<close>
proof (induction und c ty and und2 c2 ty2 and und3 c3 ts and und4 c4 fs and und5 c5 ms
    rule: typeName_initArgs_typeNames_fieldTypeNames_methodTypeNames.induct)
  case (1 und c ty)
  show ?case
  proof
    assume wf: \<open>wfType ty\<close>
    show \<open>\<exists>s c'. typeName und c ty = Inr (s, c')\<close>
    proof (cases \<open>anonymous ty\<close>)
      case False
      then consider t where \<open>ty = Basic t\<close> | obj where \<open>ty = Named obj\<close> | \<open>ty = Interface []\<close>
        by (cases ty) (auto simp: anonymous_def)
      then show ?thesis
      proof cases
        case 1
        with wf toJavaScriptType_total [of t] show ?thesis
          by (auto simp: typeName_Basic)
      next
        case 2
        with wf objectName_total [of obj c] show ?thesis
          by (auto simp: typeName_Named)
      next
        case 3
        then show ?thesis by (simp add: typeName_emptyInterface)
      qed
    next
      case True
      show ?thesis
      proof (cases \<open>anonTypeMap (pctx c) ty\<close>)
        case (Some anonType)
        from typeName_known [OF True Some] show ?thesis by simp
      next
        case None
        from True wf have nt: \<open>\<forall>ts. ty \<noteq> Tuple ts\<close> by auto
        from True have ne: \<open>ty \<noteq> Interface []\<close> by (auto simp: anonymous_def)
        have \<open>wfType ty \<longrightarrow> (\<exists>c'. initArgs und c ty = Inr c')\<close>
          using True nt "1" ne None by (cases ty) (simp_all add: anonymous_def)
        with wf obtain c1 where c1: \<open>initArgs und c ty = Inr c1\<close> by blast
        from newAnonType_total [OF True nt, of und c1] obtain a c2 where
          \<open>newAnonType und c1 ty = Inr (a, c2)\<close> by blast
        with c1 show ?thesis by (simp add: typeName_new [OF True None])
      qed
    qed
  qed
next
  case (2 und c ty)
  show ?case
  proof
    assume wf: \<open>wfType ty\<close>
    show \<open>\<exists>c'. initArgs und c ty = Inr c'\<close>
    proof (cases ty)
      case (Map key elem)
      with wf "2"(8) [OF Map] obtain s c1 where k: \<open>typeName und c key = Inr (s, c1)\<close> by auto
      from "2"(9) [OF Map k refl] wf Map obtain s' c2 where
        \<open>typeName und c1 elem = Inr (s', c2)\<close> by auto
      with k Map show ?thesis by (simp add: initArgs.simps)
    next
      case (Signature params results variadic)
      with wf "2"(5) [OF Signature] obtain c1 where p: \<open>typeNames und c params = Inr c1\<close> by auto
      from "2"(6) [OF Signature p] wf Signature obtain c2 where
        \<open>typeNames und c1 results = Inr c2\<close> by auto
      with p Signature show ?thesis by (simp add: initArgs.simps)
    qed (use wf "2" in \<open>auto simp: initArgs.simps\<close>)
  qed
next
  case (3 und c)
  show ?case by simp
next
  case (4 und c t ts)
  show ?case
  proof
    assume wf: \<open>wfTypes (t # ts)\<close>
    with "4"(1) obtain s c1 where t: \<open>typeName und c t = Inr (s, c1)\<close> by auto
    from "4"(2) [OF t refl] wf obtain c2 where \<open>typeNames und c1 ts = Inr c2\<close> by auto
    with t show \<open>\<exists>c'. typeNames und c (t # ts) = Inr c'\<close> by simp
  qed
next
  case (5 und c)
  show ?case by simp
next
  case (6 und c f fs)
  show ?case
  proof
    assume wf: \<open>wfFields (f # fs)\<close>
    with "6"(1) obtain s c1 where t: \<open>typeName und c (FieldType f) = Inr (s, c1)\<close> by auto
    from "6"(2) [OF t refl] wf obtain c2 where \<open>fieldTypeNames und c1 fs = Inr c2\<close> by auto
    with t show \<open>\<exists>c'. fieldTypeNames und c (f # fs) = Inr c'\<close> by simp
  qed
next
  case (7 und c)
  show ?case by simp
next
  case (8 und c m ms)
  show ?case
  proof
    assume wf: \<open>wfMethods (m # ms)\<close>
    with "8"(1) obtain s c1 where t: \<open>typeName und c (snd m) = Inr (s, c1)\<close> by auto
    from "8"(2) [OF t refl] wf obtain c2 where \<open>methodTypeNames und c1 ms = Inr c2\<close> by auto
    with t show \<open>\<exists>c'. methodTypeNames und c (m # ms) = Inr c'\<close> by simp
  qed
qed

lemma typeName_total: \<open>wfType ty \<Longrightarrow> \<exists>s c'. typeName und c ty = Inr (s, c')\<close>
  using typeName_total_mutual(1) by blast

subsection \<open>The dispatch of \<open>zeroValue\<close>\<close>

text \<open>\<open>usesTypeName und ty\<close>: the branch of \<^verbatim>\<open>zeroValue\<close> taken for \<open>ty\<close> calls \<^verbatim>\<open>c.typeName(ty)\<close>.\<close>

definition usesTypeName :: "(object \<Rightarrow> ty) \<Rightarrow> ty \<Rightarrow> bool" where
  \<open>usesTypeName und ty =
     (case Underlying und ty of
        Basic t \<Rightarrow> is64Bit t \<or> isComplex t
      | Signature _ _ _ \<Rightarrow> False
      | Map _ _ \<Rightarrow> False
      | Interface _ \<Rightarrow> False
      | _ \<Rightarrow> True)\<close>

text \<open>\<open>unhandledBasic t\<close>: none of the tests of the basic branch holds for \<open>t\<close>.\<close>

definition unhandledBasic :: "basic \<Rightarrow> bool" where
  \<open>unhandledBasic t \<longleftrightarrow>
     \<not> (is64Bit t \<or> isComplex t \<or> isBoolean t \<or> isNumeric t \<or> Kind t = UnsafePointer \<or> isString t)\<close>

lemmas basicInfo_defs =
  is64Bit_def isBoolean_def isComplex_def isNumeric_def isString_def
  IsBoolean_def IsInteger_def IsUnsigned_def IsFloat_def IsComplex_def IsString_def
  IsUntyped_def IsNumeric_def

lemma unhandledBasic_Typ: \<open>unhandledBasic (Typ k) \<longleftrightarrow> k = Invalid \<or> k = UntypedNil\<close>
  by (cases k) (simp_all add: unhandledBasic_def basicInfo_defs)

lemma upperByte_examples:
  \<open>upperByte (CHR ''i'') = ''I''\<close> \<open>upperByte (CHR ''u'') = ''U''\<close> \<open>upperByte (CHR ''c'') = ''C''\<close>
  by code_simp+

lemma zeroValue_Typ:
  \<open>zeroValue und c (Basic (Typ k)) =
     (if k = Int64 then Inr (''new $Int64(0, 0)'', c)
      else if k = Uint64 then Inr (''new $Uint64(0, 0)'', c)
      else if k = Complex64 then Inr (''new $Complex64(0, 0)'', c)
      else if k = Complex128 then Inr (''new $Complex128(0, 0)'', c)
      else if k = UntypedComplex then Inr (''new $Untyped complex(0, 0)'', c)
      else if k = Bool \<or> k = UntypedBool then Inr (''false'', c)
      else if k = String \<or> k = UntypedString then Inr ([QUOTE, QUOTE], c)
      else if k = UntypedNil then Inl (Panic ''Zero value for untyped nil.'')
      else if k = Invalid then Inl (Panic ''Unhandled type'')
      else Inr (''0'', c))\<close>
  by (cases k)
    (simp_all add: zeroValue_def IsJsObject_def basicInfo_defs typeName_Basic
      toJavaScriptType_def upperByte_examples)

lemma zeroValue_failure:
  \<open>zeroValue und c ty = Inl e \<longleftrightarrow>
     \<not> IsJsObject ty \<and>
     ((\<exists>t. Underlying und ty = Basic t \<and> unhandledBasic t
           \<and> e = (if Kind t = UntypedNil then Panic ''Zero value for untyped nil.''
                    else Panic ''Unhandled type''))
      \<or> (usesTypeName und ty \<and> typeName und c ty = Inl e))\<close>
proof (cases \<open>IsJsObject ty\<close>)
  case True
  then show ?thesis by (simp add: zeroValue_def)
next
  case False
  then show ?thesis
    by (cases \<open>Underlying und ty\<close>)
      (auto simp: zeroValue_def usesTypeName_def unhandledBasic_def split: sum.splits)
qed

lemma zeroValue_composite:
  assumes \<open>\<not> IsJsObject ty\<close> \<open>typeName und c ty = Inr (s, c')\<close>
  shows \<open>case Underlying und ty of
           Basic t \<Rightarrow> is64Bit t \<or> isComplex t \<longrightarrow>
             zeroValue und c ty = Inr (''new '' @ s @ ''(0, 0)'', c')
         | Array n elem \<Rightarrow> zeroValue und c ty = Inr (s @ ''.zero()'', c')
         | Struct fs \<Rightarrow> zeroValue und c ty = Inr (''new '' @ s @ ''.ptr()'', c')
         | Signature params results variadic \<Rightarrow>
             zeroValue und c ty = Inr (''$throwNilPointerError'', c)
         | Map key elem \<Rightarrow> zeroValue und c ty = Inr (''false'', c)
         | Interface methods \<Rightarrow> zeroValue und c ty = Inr (''$ifaceNil'', c)
         | _ \<Rightarrow> zeroValue und c ty = Inr (s @ ''.nil'', c')\<close>
  using assms by (cases \<open>Underlying und ty\<close>) (simp_all add: zeroValue_def)

text \<open>\<open>predeclared t\<close>: \<open>t\<close> is one of the basic types of the type checker's table, or one
  of the aliases \<^verbatim>\<open>byte\<close> and \<^verbatim>\<open>rune\<close>.\<close>

definition predeclared :: "basic \<Rightarrow> bool" where
  \<open>predeclared t \<longleftrightarrow> t = Typ (Kind t) \<or> t = ByteType \<or> t = RuneType\<close>

lemma zeroValue_basic:
  assumes \<open>\<not> IsJsObject ty\<close> \<open>Underlying und ty = Basic t\<close>
  shows \<open>zeroValue und c ty =
     (if is64Bit t \<or> isComplex t then
        (case typeName und c ty of
           Inl e \<Rightarrow> Inl e
         | Inr (s, c') \<Rightarrow> Inr (''new '' @ s @ ''(0, 0)'', c'))
      else if isBoolean t then Inr (''false'', c)
      else if isNumeric t \<or> Kind t = UnsafePointer then Inr (''0'', c)
      else if isString t then Inr ([QUOTE, QUOTE], c)
      else if Kind t = UntypedNil then Inl (Panic ''Zero value for untyped nil.'')
      else Inl (Panic ''Unhandled type''))\<close>
  using assms by (simp add: zeroValue_def)

lemma zeroValue_predeclared:
  assumes \<open>\<not> IsJsObject ty\<close> \<open>Underlying und ty = Basic t\<close> \<open>predeclared t\<close>
  shows \<open>zeroValue und c ty =
     (if Kind t \<in> {Int64, Uint64, Complex64, Complex128, UntypedComplex} then
        (case typeName und c ty of
           Inl e \<Rightarrow> Inl e
         | Inr (s, c') \<Rightarrow> Inr (''new '' @ s @ ''(0, 0)'', c'))
      else if Kind t \<in> {Bool, UntypedBool} then Inr (''false'', c)
      else if Kind t \<in> {String, UntypedString} then Inr ([QUOTE, QUOTE], c)
      else if Kind t = UntypedNil then Inl (Panic ''Zero value for untyped nil.'')
      else if Kind t = Invalid then Inl (Panic ''Unhandled type'')
      else Inr (''0'', c))\<close>
proof -
  from assms(3) consider (table) k where \<open>t = Typ k\<close> | (byte) \<open>t = ByteType\<close> | (rune) \<open>t = RuneType\<close>
    by (auto simp: predeclared_def)
  then show ?thesis
  proof cases
    case table
    show ?thesis
      unfolding zeroValue_basic [OF assms(1,2)] table
      by (cases k) (simp_all add: basicInfo_defs)
  next
    case byte
    show ?thesis
      unfolding zeroValue_basic [OF assms(1,2)] byte
      by (simp add: ByteType_def basicInfo_defs)
  next
    case rune
    show ?thesis
      unfolding zeroValue_basic [OF assms(1,2)] rune
      by (simp add: RuneType_def basicInfo_defs)
  qed
qed

text \<open>
  C4 (as amended). \<^verbatim>\<open>zeroValue\<close> gives \<^verbatim>\<open>null\<close> for the interop object type. Otherwise it
  dispatches on the underlying type, for a named type as for an unnamed one. When the
  underlying type is basic the result follows the tests of the code in their order; for the
  predeclared basic types, \<^verbatim>\<open>byte\<close> and \<^verbatim>\<open>rune\<close> included, this is \<^verbatim>\<open>new s(0, 0)\<close> for the 64-bit
  integer and the complex kinds, \<^verbatim>\<open>false\<close> for the boolean, \<^verbatim>\<open>""\<close> for the string kinds and
  \<^verbatim>\<open>0\<close> for the other numeric kinds and \<^verbatim>\<open>unsafe.Pointer\<close>; untyped nil and the invalid type
  panic. With \<open>s\<close> the descriptor name of the type, an array gives \<^verbatim>\<open>s.zero()\<close>, a struct
  \<^verbatim>\<open>new s.ptr()\<close>, a slice, pointer or channel \<^verbatim>\<open>s.nil\<close>, a signature
  \<^verbatim>\<open>$throwNilPointerError\<close>, a map \<^verbatim>\<open>false\<close> and an interface \<^verbatim>\<open>$ifaceNil\<close>. The call fails
  exactly when the underlying basic type is none of the handled ones, or when the branch
  needs the descriptor name and \<^verbatim>\<open>typeName\<close> fails; the latter does not happen for a
  well-formed type.
\<close>

theorem zeroValue_dispatch:
  \<open>(IsJsObject ty \<longrightarrow> zeroValue und c ty = Inr (''null'', c))
   \<and> zeroValue und c (Basic (Typ k)) =
       (if k = Int64 then Inr (''new $Int64(0, 0)'', c)
        else if k = Uint64 then Inr (''new $Uint64(0, 0)'', c)
        else if k = Complex64 then Inr (''new $Complex64(0, 0)'', c)
        else if k = Complex128 then Inr (''new $Complex128(0, 0)'', c)
        else if k = UntypedComplex then Inr (''new $Untyped complex(0, 0)'', c)
        else if k = Bool \<or> k = UntypedBool then Inr (''false'', c)
        else if k = String \<or> k = UntypedString then Inr ([QUOTE, QUOTE], c)
        else if k = UntypedNil then Inl (Panic ''Zero value for untyped nil.'')
        else if k = Invalid then Inl (Panic ''Unhandled type'')
        else Inr (''0'', c))
   \<and> (\<not> IsJsObject ty \<and> Underlying und ty = Basic t \<longrightarrow>
        zeroValue und c ty =
          (if is64Bit t \<or> isComplex t then
             (case typeName und c ty of
                Inl e \<Rightarrow> Inl e
              | Inr (s, c') \<Rightarrow> Inr (''new '' @ s @ ''(0, 0)'', c'))
           else if isBoolean t then Inr (''false'', c)
           else if isNumeric t \<or> Kind t = UnsafePointer then Inr (''0'', c)
           else if isString t then Inr ([QUOTE, QUOTE], c)
           else if Kind t = UntypedNil then Inl (Panic ''Zero value for untyped nil.'')
           else Inl (Panic ''Unhandled type'')))
   \<and> (\<not> IsJsObject ty \<and> Underlying und ty = Basic t \<and> predeclared t \<longrightarrow>
        zeroValue und c ty =
          (if Kind t \<in> {Int64, Uint64, Complex64, Complex128, UntypedComplex} then
             (case typeName und c ty of
                Inl e \<Rightarrow> Inl e
              | Inr (s, c') \<Rightarrow> Inr (''new '' @ s @ ''(0, 0)'', c'))
           else if Kind t \<in> {Bool, UntypedBool} then Inr (''false'', c)
           else if Kind t \<in> {String, UntypedString} then Inr ([QUOTE, QUOTE], c)
           else if Kind t = UntypedNil then Inl (Panic ''Zero value for untyped nil.'')
           else if Kind t = Invalid then Inl (Panic ''Unhandled type'')
           else Inr (''0'', c)))
   \<and> (\<not> IsJsObject ty \<and> typeName und c ty = Inr (s, c') \<longrightarrow>
        (case Underlying und ty of
           Basic t \<Rightarrow> is64Bit t \<or> isComplex t \<longrightarrow>
             zeroValue und c ty = Inr (''new '' @ s @ ''(0, 0)'', c')
         | Array n elem \<Rightarrow> zeroValue und c ty = Inr (s @ ''.zero()'', c')
         | Struct fs \<Rightarrow> zeroValue und c ty = Inr (''new '' @ s @ ''.ptr()'', c')
         | Signature params results variadic \<Rightarrow>
             zeroValue und c ty = Inr (''$throwNilPointerError'', c)
         | Map key elem \<Rightarrow> zeroValue und c ty = Inr (''false'', c)
         | Interface methods \<Rightarrow> zeroValue und c ty = Inr (''$ifaceNil'', c)
         | _ \<Rightarrow> zeroValue und c ty = Inr (s @ ''.nil'', c')))
   \<and> (zeroValue und c ty = Inl e \<longleftrightarrow>
        \<not> IsJsObject ty \<and>
        ((\<exists>t. Underlying und ty = Basic t \<and> unhandledBasic t
              \<and> e = (if Kind t = UntypedNil then Panic ''Zero value for untyped nil.''
                       else Panic ''Unhandled type''))
         \<or> (usesTypeName und ty \<and> typeName und c ty = Inl e)))
   \<and> (unhandledBasic (Typ k) \<longleftrightarrow> k = Invalid \<or> k = UntypedNil)
   \<and> (wfType ty \<longrightarrow>
        ((\<exists>e. zeroValue und c ty = Inl e) \<longleftrightarrow>
           \<not> IsJsObject ty \<and> (\<exists>t. Underlying und ty = Basic t \<and> unhandledBasic t)))\<close>
proof (intro conjI impI)
  assume \<open>IsJsObject ty\<close>
  then show \<open>zeroValue und c ty = Inr (''null'', c)\<close> by (simp add: zeroValue_def)
next
  show \<open>zeroValue und c (Basic (Typ k)) =
       (if k = Int64 then Inr (''new $Int64(0, 0)'', c)
        else if k = Uint64 then Inr (''new $Uint64(0, 0)'', c)
        else if k = Complex64 then Inr (''new $Complex64(0, 0)'', c)
        else if k = Complex128 then Inr (''new $Complex128(0, 0)'', c)
        else if k = UntypedComplex then Inr (''new $Untyped complex(0, 0)'', c)
        else if k = Bool \<or> k = UntypedBool then Inr (''false'', c)
        else if k = String \<or> k = UntypedString then Inr ([QUOTE, QUOTE], c)
        else if k = UntypedNil then Inl (Panic ''Zero value for untyped nil.'')
        else if k = Invalid then Inl (Panic ''Unhandled type'')
        else Inr (''0'', c))\<close>
    by (rule zeroValue_Typ)
next
  assume \<open>\<not> IsJsObject ty \<and> Underlying und ty = Basic t\<close>
  then show \<open>zeroValue und c ty =
          (if is64Bit t \<or> isComplex t then
             (case typeName und c ty of
                Inl e \<Rightarrow> Inl e
              | Inr (s, c') \<Rightarrow> Inr (''new '' @ s @ ''(0, 0)'', c'))
           else if isBoolean t then Inr (''false'', c)
           else if isNumeric t \<or> Kind t = UnsafePointer then Inr (''0'', c)
           else if isString t then Inr ([QUOTE, QUOTE], c)
           else if Kind t = UntypedNil then Inl (Panic ''Zero value for untyped nil.'')
           else Inl (Panic ''Unhandled type''))\<close>
    using zeroValue_basic [of ty und t c] by blast
next
  assume \<open>\<not> IsJsObject ty \<and> Underlying und ty = Basic t \<and> predeclared t\<close>
  then show \<open>zeroValue und c ty =
          (if Kind t \<in> {Int64, Uint64, Complex64, Complex128, UntypedComplex} then
             (case typeName und c ty of
                Inl e \<Rightarrow> Inl e
              | Inr (s, c') \<Rightarrow> Inr (''new '' @ s @ ''(0, 0)'', c'))
           else if Kind t \<in> {Bool, UntypedBool} then Inr (''false'', c)
           else if Kind t \<in> {String, UntypedString} then Inr ([QUOTE, QUOTE], c)
           else if Kind t = UntypedNil then Inl (Panic ''Zero value for untyped nil.'')
           else if Kind t = Invalid then Inl (Panic ''Unhandled type'')
           else Inr (''0'', c))\<close>
    using zeroValue_predeclared [of ty und t c] by blast
next
  assume \<open>\<not> IsJsObject ty \<and> typeName und c ty = Inr (s, c')\<close>
  then show \<open>case Underlying und ty of
           Basic t \<Rightarrow> is64Bit t \<or> isComplex t \<longrightarrow>
             zeroValue und c ty = Inr (''new '' @ s @ ''(0, 0)'', c')
         | Array n elem \<Rightarrow> zeroValue und c ty = Inr (s @ ''.zero()'', c')
         | Struct fs \<Rightarrow> zeroValue und c ty = Inr (''new '' @ s @ ''.ptr()'', c')
         | Signature params results variadic \<Rightarrow>
             zeroValue und c ty = Inr (''$throwNilPointerError'', c)
         | Map key elem \<Rightarrow> zeroValue und c ty = Inr (''false'', c)
         | Interface methods \<Rightarrow> zeroValue und c ty = Inr (''$ifaceNil'', c)
         | _ \<Rightarrow> zeroValue und c ty = Inr (s @ ''.nil'', c')\<close>
    using zeroValue_composite [of ty und c s c'] by blast
next
  show \<open>zeroValue und c ty = Inl e \<longleftrightarrow>
        \<not> IsJsObject ty \<and>
        ((\<exists>t. Underlying und ty = Basic t \<and> unhandledBasic t
              \<and> e = (if Kind t = UntypedNil then Panic ''Zero value for untyped nil.''
                       else Panic ''Unhandled type''))
         \<or> (usesTypeName und ty \<and> typeName und c ty = Inl e))\<close>
    by (rule zeroValue_failure)
next
  show \<open>unhandledBasic (Typ k) \<longleftrightarrow> k = Invalid \<or> k = UntypedNil\<close>
    by (rule unhandledBasic_Typ)
next
  assume wf: \<open>wfType ty\<close>
  from typeName_total [OF wf, of und c] have ok: \<open>typeName und c ty \<noteq> Inl e\<close> for e by auto
  show \<open>(\<exists>e. zeroValue und c ty = Inl e) \<longleftrightarrow>
           \<not> IsJsObject ty \<and> (\<exists>t. Underlying und ty = Basic t \<and> unhandledBasic t)\<close>
    unfolding zeroValue_failure using ok by auto
qed

theorem zeroValue_dispatch_counterexample:
  \<open>zeroValue noDecls emptyFuncContext (Tuple []) = Inl (unhandledType ''*types.Tuple'')
   \<and> Underlying noDecls (Tuple []) = Tuple []\<close>
proof -
  have a: \<open>anonymous (Tuple [])\<close> by (simp add: anonymous_def)
  have n: \<open>anonTypeMap (pctx emptyFuncContext) (Tuple []) = None\<close>
    by (simp add: emptyFuncContext_def emptyPkgContext_def)
  have \<open>typeName noDecls emptyFuncContext (Tuple []) = Inl (unhandledType ''*types.Tuple'')\<close>
    by (simp add: typeName_new [OF a n] initArgs.simps newAnonType_def typeKind_def)
  then show ?thesis by (simp add: zeroValue_def IsJsObject_def)
qed

lemma typeName_slice_example:
  \<open>\<exists>c'. typeName noDecls emptyFuncContext (Slice (Basic (Typ Int'))) = Inr (''sliceType'', c')\<close>
proof -
  let ?ty = \<open>Slice (Basic (Typ Int'))\<close>
  have a: \<open>anonymous ?ty\<close> by (simp add: anonymous_def)
  have n: \<open>anonTypeMap (pctx emptyFuncContext) ?ty = None\<close>
    by (simp add: emptyFuncContext_def emptyPkgContext_def)
  have i: \<open>initArgs noDecls emptyFuncContext ?ty = Inr emptyFuncContext\<close>
    by (simp add: initArgs.simps typeName_Basic toJavaScriptType_def upperByte_examples)
  have l: \<open>lowerByte (CHR ''S'') = CHR ''s''\<close> \<open>lowerByte (CHR ''l'') = CHR ''l''\<close>
    \<open>lowerByte (CHR ''i'') = CHR ''i''\<close> \<open>lowerByte (CHR ''c'') = CHR ''c''\<close>
    \<open>lowerByte (CHR ''e'') = CHR ''e''\<close> by code_simp+
  have m: \<open>\<not> minify (pctx emptyFuncContext)\<close>
    by (simp add: emptyFuncContext_def emptyPkgContext_def)
  have v: \<open>\<exists>c'. newVariableWithLevel emptyFuncContext ''sliceType'' True = Inr (''sliceType'', c')\<close>
    using newVariableWithLevel_plain [OF m, of \<open>''sliceType''\<close> True]
    by (simp add: sanitize_def varNameOf_def lookupVar_def emptyFuncContext_def)
  then obtain c1 where
    \<open>newVariableWithLevel emptyFuncContext ''sliceType'' True = Inr (''sliceType'', c1)\<close> by blast
  then have \<open>\<exists>c'. newAnonType noDecls emptyFuncContext ?ty
      = Inr (NewTypeName (Pkg (pctx c1)) ''sliceType'', c')\<close>
    by (simp add: newAnonType_def typeKind_def l Let_def del: Typ.simps)
  then obtain c2 where \<open>newAnonType noDecls emptyFuncContext ?ty
      = Inr (NewTypeName (Pkg (pctx c1)) ''sliceType'', c2)\<close> by blast
  then have \<open>typeName noDecls emptyFuncContext ?ty
      = Inr (''sliceType'', addDependency c2 (NewTypeName (Pkg (pctx c1)) ''sliceType''))\<close>
    by (simp add: typeName_new [OF a n] i NewTypeName_def del: Typ.simps)
  then show ?thesis by (rule exI [of _ \<open>addDependency c2 (NewTypeName (Pkg (pctx c1)) ''sliceType'')\<close>])
qed

definition jsObject :: object where
  \<open>jsObject =
     \<lparr>Class = TypeName, Name = ''Object'',
      ObjPkg = Some \<lparr>Path = ''github.com/gopherjs/gopherjs/js'', Scope = 1\<rparr>,
      Parent = Some 1, Exported = True\<rparr>\<close>

text \<open>The declaration \<^verbatim>\<open>type Flag bool\<close> of the package, and a table that knows it.\<close>

definition flagObject :: object where
  \<open>flagObject =
     \<lparr>Class = TypeName, Name = ''Flag'', ObjPkg = Some \<lparr>Path = ''main'', Scope = 0\<rparr>,
      Parent = Some 0, Exported = True\<rparr>\<close>

definition flagDecls :: "object \<Rightarrow> ty" where
  \<open>flagDecls obj = (if obj = flagObject then Basic (Typ Bool) else Basic (Typ Invalid))\<close>

theorem zeroValue_dispatch_witness:
  \<open>IsJsObject (Pointer (Named jsObject))
   \<and> zeroValue noDecls emptyFuncContext (Pointer (Named jsObject)) = Inr (''null'', emptyFuncContext)
   \<and> \<not> IsJsObject (Named flagObject)
   \<and> Underlying flagDecls (Named flagObject) = Basic (Typ Bool) \<and> predeclared (Typ Bool)
   \<and> zeroValue flagDecls emptyFuncContext (Named flagObject) = Inr (''false'', emptyFuncContext)
   \<and> \<not> IsJsObject (Basic ByteType)
   \<and> Underlying noDecls (Basic ByteType) = Basic ByteType \<and> predeclared ByteType
   \<and> zeroValue noDecls emptyFuncContext (Basic ByteType) = Inr (''0'', emptyFuncContext)
   \<and> \<not> IsJsObject (Slice (Basic (Typ Int')))
   \<and> wfType (Slice (Basic (Typ Int')))
   \<and> (\<exists>c'. zeroValue noDecls emptyFuncContext (Slice (Basic (Typ Int'))) = Inr (''sliceType.nil'', c'))
   \<and> \<not> (\<exists>e. zeroValue noDecls emptyFuncContext (Slice (Basic (Typ Int'))) = Inl e)\<close>
proof -
  let ?ty = \<open>Slice (Basic (Typ Int'))\<close>
  have j: \<open>IsJsObject (Pointer (Named jsObject))\<close> by (simp add: IsJsObject_def jsObject_def)
  have nj: \<open>\<not> IsJsObject ?ty\<close> by (simp add: IsJsObject_def)
  have wf: \<open>wfType ?ty\<close> by simp
  have f: \<open>\<not> IsJsObject (Named flagObject)\<close>
    \<open>Underlying flagDecls (Named flagObject) = Basic (Typ Bool)\<close> \<open>predeclared (Typ Bool)\<close>
    by (simp_all add: IsJsObject_def flagDecls_def predeclared_def)
  have y: \<open>\<not> IsJsObject (Basic ByteType)\<close>
    \<open>Underlying noDecls (Basic ByteType) = Basic ByteType\<close> \<open>predeclared ByteType\<close>
    by (simp_all add: IsJsObject_def predeclared_def)
  from typeName_slice_example obtain c' where
    t: \<open>typeName noDecls emptyFuncContext ?ty = Inr (''sliceType'', c')\<close> by blast
  from zeroValue_dispatch [of \<open>Pointer (Named jsObject)\<close> noDecls emptyFuncContext]
  have c1: \<open>zeroValue noDecls emptyFuncContext (Pointer (Named jsObject)) = Inr (''null'', emptyFuncContext)\<close>
    using j by blast
  from zeroValue_dispatch [of \<open>Named flagObject\<close> flagDecls emptyFuncContext Invalid \<open>Typ Bool\<close>,
      THEN conjunct2, THEN conjunct2, THEN conjunct2, THEN conjunct1, rule_format,
      OF conjI [OF f(1) conjI [OF f(2) f(3)]]]
  have cf: \<open>zeroValue flagDecls emptyFuncContext (Named flagObject) = Inr (''false'', emptyFuncContext)\<close>
    by simp
  from zeroValue_dispatch [of \<open>Basic ByteType\<close> noDecls emptyFuncContext Invalid ByteType,
      THEN conjunct2, THEN conjunct2, THEN conjunct2, THEN conjunct1, rule_format,
      OF conjI [OF y(1) conjI [OF y(2) y(3)]]]
  have cy: \<open>zeroValue noDecls emptyFuncContext (Basic ByteType) = Inr (''0'', emptyFuncContext)\<close>
    by (simp add: ByteType_def)
  note d = zeroValue_dispatch [of ?ty noDecls emptyFuncContext Invalid _ \<open>''sliceType''\<close> c']
  from d [THEN conjunct2, THEN conjunct2, THEN conjunct2, THEN conjunct2, THEN conjunct1,
      rule_format, OF conjI [OF nj t]]
  have c2: \<open>zeroValue noDecls emptyFuncContext ?ty = Inr (''sliceType.nil'', c')\<close> by simp
  from d [THEN conjunct2, THEN conjunct2, THEN conjunct2, THEN conjunct2, THEN conjunct2,
      THEN conjunct2, THEN conjunct2, rule_format, OF wf]
  have c3: \<open>\<not> (\<exists>e. zeroValue noDecls emptyFuncContext ?ty = Inl e)\<close> by simp
  have ex: \<open>\<exists>c'. zeroValue noDecls emptyFuncContext ?ty = Inr (''sliceType.nil'', c')\<close>
    by (rule exI [of _ c']) (rule c2)
  show ?thesis
    by (rule conjI [OF j conjI [OF c1 conjI [OF f(1) conjI [OF f(2) conjI [OF f(3) conjI [OF cf
        conjI [OF y(1) conjI [OF y(2) conjI [OF y(3) conjI [OF cy conjI [OF nj conjI [OF wf
        conjI [OF ex c3]]]]]]]]]]]]])
qed

section \<open>Names of anonymous types\<close>



























subsection \<open>Runs of the resolver\<close>















section \<open>Selector paths: \<open>getJsTag\<close>, \<open>fieldName\<close> and \<open>translateSelection\<close>\<close>

text \<open>
  \<^verbatim>\<open>getJsTag\<close> reads a struct tag as a sequence of \<^verbatim>\<open>name:"value"\<close> pairs. \<open>quotedEnd cs\<close> is
  the number of bytes that the scan of the quoted value passes in \<open>cs\<close>, the bytes after the
  opening quote, before it stops; a backslash makes it skip the next byte. \<open>unquote\<close> stands
  for \<^verbatim>\<open>value, _ := strconv.Unquote(qvalue)\<close> of the standard library.
\<close>

fun quotedEnd :: "byte list \<Rightarrow> nat" where
  \<open>quotedEnd [] = 0\<close>
| \<open>quotedEnd (c # cs) =
     (if c = QUOTE then 0
      else if c = BACKSLASH then 2 + quotedEnd (drop 1 cs)
      else 1 + quotedEnd cs)\<close>

function getJsTag :: "(string \<Rightarrow> string) \<Rightarrow> string \<Rightarrow> string" where
  \<open>getJsTag unquote tag =
     (if tag = [] then []
      else
        let tag = dropWhile (\<lambda>ch. ch = SPC) tag in
        if tag = [] then []
        else
          let i = length (takeWhile (\<lambda>ch. ch \<noteq> SPC \<and> ch \<noteq> CHR '':'' \<and> ch \<noteq> QUOTE) tag) in
          if i + 1 \<ge> length tag \<or> tag ! i \<noteq> CHR '':'' \<or> tag ! (i + 1) \<noteq> QUOTE then []
          else
            let name = take i tag;
                tag = drop (i + 1) tag;
                i = 1 + quotedEnd (drop 1 tag)
            in
              if i \<ge> length tag then []
              else
                let qvalue = take (i + 1) tag;
                    tag = drop (i + 1) tag
                in if name = ''js'' then unquote qvalue else getJsTag unquote tag)\<close>
  by pat_completeness auto
termination
proof (relation \<open>measure (\<lambda>(unquote, tag). length tag)\<close>, goal_cases)
  case 1
  show ?case by simp
next
  case (2 unquote tag x xa xb xc xd xe xf)
  have \<open>length (dropWhile (\<lambda>ch. ch = SPC) tag) \<le> length tag\<close>
    by (rule length_dropWhile_le)
  with 2 show ?case by simp
qed

declare getJsTag.simps [simp del]

text \<open>
  \<^verbatim>\<open>(*types.Struct).Tag(i)\<close> gives the empty string when the struct has no tag for \<open>i\<close>;
  \<^verbatim>\<open>Field(i)\<close> indexes the fields and panics out of range.
\<close>

definition Tag :: "field list \<Rightarrow> nat \<Rightarrow> string" where
  \<open>Tag s i = (if i < length s then FieldTag (s ! i) else [])\<close>

text \<open>
  \<^verbatim>\<open>fieldName\<close>. The table \<^verbatim>\<open>reservedKeywords\<close> of the package is declared in another file;
  the model takes it as the parameter \<open>reserved\<close>.
\<close>

definition fieldName :: "string set \<Rightarrow> field list \<Rightarrow> nat \<Rightarrow> error + string" where
  \<open>fieldName reserved t i =
     (if i \<ge> length t then Inl indexOutOfRange
      else
        let name = FieldName (t ! i) in
        if name = ''_'' \<or> name \<in> reserved then Inr (name @ ''$'' @ decimal i) else Inr name)\<close>

text \<open>
  The inner \<^verbatim>\<open>for\<close> loop of \<^verbatim>\<open>translateSelection\<close>, one call per iteration, with the struct
  \<open>s\<close> and the accessors \<open>path\<close> collected so far. It has no exit but its two \<^verbatim>\<open>return\<close>s, so a call
  that never reaches one does not return: the value \<open>None\<close>. \<open>Inr (Some path)\<close> is the
  first \<^verbatim>\<open>return\<close> (a field of the interop object type is reached), \<open>Inr None\<close> the second.
\<close>

partial_function (option) jsObjectPath ::
  "(object \<Rightarrow> ty) \<Rightarrow> string set \<Rightarrow> field list \<Rightarrow> string list \<Rightarrow> (error + string list option) option"
where
  \<open>jsObjectPath und reserved s path =
     (case fieldName reserved s 0 of
        Inl e \<Rightarrow> Some (Inl e)
      | Inr name \<Rightarrow>
          let path = path @ [name];
              ft = FieldType (s ! 0)
          in
            if IsJsObject ft then Some (Inr (Some path))
            else
              let ft = Underlying und ft;
                  ft = (case ft of Pointer elem \<Rightarrow> Underlying und elem | _ \<Rightarrow> ft)
              in
                (case ft of
                   Struct s' \<Rightarrow>
                     if length s' = 0 then Some (Inr None)
                     else jsObjectPath und reserved s' path
                 | _ \<Rightarrow> Some (Inr None)))\<close>

text \<open>
  \<^verbatim>\<open>translateSelection\<close>. A selection gives the receiver type and the field indices of the
  path, as the type checker computed them. The type assertion \<^verbatim>\<open>.(*types.Struct)\<close> panics
  on any other type. The outer loop is \<open>selectionLoop\<close>, one call per index.
\<close>

record selection =
  Recv :: ty
  SelIndex :: "nat list"

definition notAStruct :: error where
  \<open>notAStruct = Panic ''interface conversion: types.Type is not *types.Struct''\<close>

abbreviation APOS :: byte where \<open>APOS \<equiv> CHR 0x27\<close>

definition missingJsObject :: "funcContext \<Rightarrow> int \<Rightarrow> string \<Rightarrow> Error" where
  \<open>missingJsObject c position jsFieldName =
     \<lparr>Fset = fileSet (pctx c), Pos = position,
      Msg = ''could not find field with type *js.Object for '' @ [APOS] @ ''js'' @ [APOS]
            @ '' tag of field '' @ [APOS] @ jsFieldName @ [APOS],
      Soft = True\<rparr>\<close>

definition addError :: "funcContext \<Rightarrow> Error \<Rightarrow> funcContext" where
  \<open>addError c err = c\<lparr>pctx := (pctx c)\<lparr>errList := errList (pctx c) @ [err]\<rparr>\<rparr>\<close>

fun selectionLoop ::
  "(object \<Rightarrow> ty) \<Rightarrow> (string \<Rightarrow> string) \<Rightarrow> string set \<Rightarrow> funcContext \<Rightarrow> int \<Rightarrow> ty \<Rightarrow> nat list
     \<Rightarrow> string list \<Rightarrow> (error + (string list \<times> string) \<times> funcContext) option" where
  \<open>selectionLoop und unquote reserved c position t [] path = Some (Inr ((path, []), c))\<close>
| \<open>selectionLoop und unquote reserved c position t (index # rest) path =
     (let t = (case t of Pointer elem \<Rightarrow> elem | _ \<Rightarrow> t) in
      case Underlying und t of
        Struct s \<Rightarrow>
          let jsTag = getJsTag unquote (Tag s index) in
          if jsTag \<noteq> [] then
            (if index \<ge> length s then Some (Inl indexOutOfRange)
             else
               let jsFieldName = FieldName (s ! index) in
               case jsObjectPath und reserved s path of
                 None \<Rightarrow> None
               | Some (Inl e) \<Rightarrow> Some (Inl e)
               | Some (Inr (Some path)) \<Rightarrow> Some (Inr ((path, jsTag), c))
               | Some (Inr None) \<Rightarrow>
                   Some (Inr (([], []), addError c (missingJsObject c position jsFieldName))))
          else
            (case fieldName reserved s index of
               Inl e \<Rightarrow> Some (Inl e)
             | Inr name \<Rightarrow>
                 selectionLoop und unquote reserved c position (FieldType (s ! index)) rest
                   (path @ [name]))
      | _ \<Rightarrow> Some (Inl notAStruct))\<close>

definition translateSelection ::
  "(object \<Rightarrow> ty) \<Rightarrow> (string \<Rightarrow> string) \<Rightarrow> string set \<Rightarrow> funcContext \<Rightarrow> selection \<Rightarrow> int
     \<Rightarrow> (error + (string list \<times> string) \<times> funcContext) option" where
  \<open>translateSelection und unquote reserved c sel position =
     selectionLoop und unquote reserved c position (Recv sel) (SelIndex sel) []\<close>

subsection \<open>The walk along first fields\<close>

text \<open>
  \<open>firstName reserved s\<close>: the accessor of the first field of \<open>s\<close>.
  \<open>firstFieldStruct und s\<close>: the struct with which the loop goes on after \<open>s\<close>, if there is
  one: the underlying type of the first field's type, or of what it points to, when that is
  a struct with at least one field.
  \<open>redirectChain und ss\<close>: the loop, started on the first struct of \<open>ss\<close>, passes through the
  structs of \<open>ss\<close> in this order.
\<close>

definition firstName :: "string set \<Rightarrow> field list \<Rightarrow> string" where
  \<open>firstName reserved s = (case fieldName reserved s 0 of Inl e \<Rightarrow> [] | Inr name \<Rightarrow> name)\<close>

definition firstFieldStruct :: "(object \<Rightarrow> ty) \<Rightarrow> field list \<Rightarrow> field list option" where
  \<open>firstFieldStruct und s =
     (let ft = Underlying und (FieldType (s ! 0));
          ft = (case ft of Pointer elem \<Rightarrow> Underlying und elem | _ \<Rightarrow> ft)
      in case ft of Struct s' \<Rightarrow> if length s' = 0 then None else Some s' | _ \<Rightarrow> None)\<close>

fun redirectChain :: "(object \<Rightarrow> ty) \<Rightarrow> field list list \<Rightarrow> bool" where
  \<open>redirectChain und [] = False\<close>
| \<open>redirectChain und [s] = (s \<noteq> [])\<close>
| \<open>redirectChain und (s # s' # ss) =
     (s \<noteq> [] \<and> \<not> IsJsObject (FieldType (s ! 0)) \<and> firstFieldStruct und s = Some s'
      \<and> redirectChain und (s' # ss))\<close>

lemma fieldName_first: \<open>s \<noteq> [] \<Longrightarrow> fieldName reserved s 0 = Inr (firstName reserved s)\<close>
  by (simp add: firstName_def fieldName_def Let_def)

lemma jsObjectPath_empty: \<open>jsObjectPath und reserved [] path = Some (Inl indexOutOfRange)\<close>
  by (subst jsObjectPath.simps) (simp add: fieldName_def)

lemma jsObjectPath_step:
  assumes \<open>s \<noteq> []\<close>
  shows \<open>jsObjectPath und reserved s path =
     (if IsJsObject (FieldType (s ! 0)) then Some (Inr (Some (path @ [firstName reserved s])))
      else
        (case firstFieldStruct und s of
           None \<Rightarrow> Some (Inr None)
         | Some s' \<Rightarrow> jsObjectPath und reserved s' (path @ [firstName reserved s])))\<close>
proof -
  note n = fieldName_first [OF assms, of reserved]
  show ?thesis
    by (subst jsObjectPath.simps)
      (simp add: n firstFieldStruct_def Let_def split: ty.splits)
qed

lemma jsObjectPath_found:
  assumes \<open>redirectChain und ss\<close> \<open>IsJsObject (FieldType (last ss ! 0))\<close>
  shows \<open>jsObjectPath und reserved (hd ss) path =
     Some (Inr (Some (path @ map (firstName reserved) ss)))\<close>
  using assms
proof (induction und ss arbitrary: path rule: redirectChain.induct)
  case (1 und)
  then show ?case by simp
next
  case (2 und s)
  then show ?case by (simp add: jsObjectPath_step)
next
  case (3 und s s' ss)
  from "3.prems" have \<open>s \<noteq> []\<close> \<open>\<not> IsJsObject (FieldType (s ! 0))\<close>
    \<open>firstFieldStruct und s = Some s'\<close> \<open>redirectChain und (s' # ss)\<close>
    \<open>IsJsObject (FieldType (last (s' # ss) ! 0))\<close> by simp_all
  with "3.IH" [of \<open>path @ [firstName reserved s]\<close>] show ?case
    by (simp add: jsObjectPath_step)
qed

lemma jsObjectPath_missing:
  assumes \<open>redirectChain und ss\<close> \<open>\<not> IsJsObject (FieldType (last ss ! 0))\<close>
    \<open>firstFieldStruct und (last ss) = None\<close>
  shows \<open>jsObjectPath und reserved (hd ss) path = Some (Inr None)\<close>
  using assms
proof (induction und ss arbitrary: path rule: redirectChain.induct)
  case (1 und)
  then show ?case by simp
next
  case (2 und s)
  then show ?case by (simp add: jsObjectPath_step)
next
  case (3 und s s' ss)
  from "3.prems" have \<open>s \<noteq> []\<close> \<open>\<not> IsJsObject (FieldType (s ! 0))\<close>
    \<open>firstFieldStruct und s = Some s'\<close> \<open>redirectChain und (s' # ss)\<close>
    \<open>\<not> IsJsObject (FieldType (last (s' # ss) ! 0))\<close>
    \<open>firstFieldStruct und (last (s' # ss)) = None\<close> by simp_all
  with "3.IH" [of \<open>path @ [firstName reserved s]\<close>] show ?case
    by (simp add: jsObjectPath_step)
qed

text \<open>\<open>endless und C\<close>: from a struct of \<open>C\<close> the loop goes on with a struct of \<open>C\<close>.\<close>

definition endless :: "(object \<Rightarrow> ty) \<Rightarrow> field list set \<Rightarrow> bool" where
  \<open>endless und C \<longleftrightarrow>
     (\<forall>s\<in>C. s \<noteq> [] \<and> \<not> IsJsObject (FieldType (s ! 0))
              \<and> (\<exists>s'\<in>C. firstFieldStruct und s = Some s'))\<close>

lemma jsObjectPath_returns:
  assumes \<open>jsObjectPath und reserved s path = Some r\<close> \<open>endless und C\<close>
  shows \<open>s \<notin> C\<close>
  using assms
proof (induction und reserved s path r arbitrary: C rule: jsObjectPath.raw_induct [rotated 1, consumes 1])
  case (1 jsObjectPath und reserved s path r)
  show ?case
  proof
    assume s: \<open>s \<in> C\<close>
    with \<open>endless und C\<close> obtain s' where ne: \<open>s \<noteq> []\<close>
      and nj: \<open>\<not> IsJsObject (FieldType (s ! 0))\<close>
      and s': \<open>s' \<in> C\<close> \<open>firstFieldStruct und s = Some s'\<close>
      unfolding endless_def by blast
    note n = fieldName_first [OF ne, of reserved]
    from s'(2) have \<open>jsObjectPath und reserved s' (path @ [firstName reserved s]) = Some r\<close>
      using "1"(2) nj
      by (auto simp: n firstFieldStruct_def Let_def split: ty.splits if_splits)
    from "1"(1) [OF this \<open>endless und C\<close>] s'(1) show False by simp
  qed
qed

lemma jsObjectPath_diverges:
  assumes \<open>endless und C\<close> \<open>s \<in> C\<close>
  shows \<open>jsObjectPath und reserved s path = None\<close>
proof (cases \<open>jsObjectPath und reserved s path\<close>)
  case None
  then show ?thesis .
next
  case (Some r)
  from jsObjectPath_returns [OF Some assms(1)] assms(2) show ?thesis by simp
qed

lemma jsObjectPath_path:
  assumes \<open>jsObjectPath und reserved s path = Some r\<close> \<open>r = Inr (Some path')\<close>
  shows \<open>path' \<noteq> []\<close>
  using assms
proof (induction und reserved s path r arbitrary: path' rule: jsObjectPath.raw_induct [rotated 1, consumes 1])
  case (1 jsObjectPath und reserved s path r)
  show ?case
  proof (cases \<open>s = []\<close>)
    case True
    with "1"(2,3) show ?thesis by (simp add: fieldName_def)
  next
    case False
    note n = fieldName_first [OF False, of reserved]
    from "1"(2,3) show ?thesis
      by (auto simp: n Let_def dest: "1"(1) split: ty.splits if_splits)
  qed
qed

lemma getJsTag_Nil: \<open>getJsTag unquote [] = []\<close>
  by (simp add: getJsTag.simps)

lemma Tag_index: \<open>getJsTag unquote (Tag s index) \<noteq> [] \<Longrightarrow> index < length s\<close>
  by (cases \<open>index < length s\<close>) (simp_all add: Tag_def getJsTag_Nil)

lemma selectionLoop_redirect:
  assumes \<open>Underlying und (case t of Pointer elem \<Rightarrow> elem | _ \<Rightarrow> t) = Struct s\<close>
    \<open>getJsTag unquote (Tag s index) \<noteq> []\<close>
  shows \<open>selectionLoop und unquote reserved c position t (index # rest) path =
     (case jsObjectPath und reserved s path of
        None \<Rightarrow> None
      | Some (Inl e) \<Rightarrow> Some (Inl e)
      | Some (Inr (Some path')) \<Rightarrow> Some (Inr ((path', getJsTag unquote (Tag s index)), c))
      | Some (Inr None) \<Rightarrow>
          Some (Inr (([], []),
            addError c (missingJsObject c position (FieldName (s ! index))))))\<close>
  using assms Tag_index [OF assms(2)] by (simp add: Let_def)

declare selectionLoop.simps [simp del]

text \<open>The declaration \<^verbatim>\<open>type Node struct { next *Node; Val int `js:"val"` }\<close>.\<close>

definition nodeObject :: object where
  \<open>nodeObject =
     \<lparr>Class = TypeName, Name = ''Node'', ObjPkg = Some \<lparr>Path = ''main'', Scope = 0\<rparr>,
      Parent = Some 0, Exported = True\<rparr>\<close>

definition nodeStruct :: "field list" where
  \<open>nodeStruct =
     [Field ''next'' (Pointer (Named nodeObject)) [] False,
      Field ''Val'' (Basic (Typ Int')) (''js:'' @ [QUOTE] @ ''val'' @ [QUOTE]) False]\<close>

definition nodeDecls :: "object \<Rightarrow> ty" where
  \<open>nodeDecls obj = (if obj = nodeObject then Struct nodeStruct else Basic (Typ Invalid))\<close>

text \<open>On a quoted string without a backslash \<^verbatim>\<open>strconv.Unquote\<close> gives what is between the
  quotes.\<close>

definition plainUnquote :: "string \<Rightarrow> string" where
  \<open>plainUnquote q = take (length q - 2) (drop 1 q)\<close>

lemma getJsTag_example:
  \<open>getJsTag unquote (''js:'' @ [QUOTE] @ ''val'' @ [QUOTE]) = unquote ([QUOTE] @ ''val'' @ [QUOTE])\<close>
  by (simp add: getJsTag.simps)

lemma nodeStruct_endless: \<open>endless nodeDecls {nodeStruct}\<close>
  by (simp add: endless_def nodeStruct_def nodeDecls_def firstFieldStruct_def IsJsObject_def
      nodeObject_def)

text \<open>
  C7. Let the loop of \<^verbatim>\<open>translateSelection\<close> stand at an index whose field has a \<^verbatim>\<open>js\<close> tag,
  in the struct \<open>s\<close>. When the walk along first fields, through the structs \<open>ss\<close>, reaches
  a first field of the interop object type, the call returns the accessors collected so
  far, followed by the first-field accessors of \<open>ss\<close>, and the tag value, and leaves the
  context as it is. When the walk ends at a first field that is neither of that type nor
  leads to a struct with fields, the call returns no accessors and the empty tag and adds
  one error to the list, soft and at the given position. When it returns at all, it
  returns in one of these two ways. When the walk comes back to a struct it has passed, as
  for \<^verbatim>\<open>type Node struct { next *Node; Val int `js:"val"` }\<close>, the call never returns and no
  error is recorded.
\<close>

theorem translateSelection_redirect:
  \<open>(Underlying und (case t of Pointer elem \<Rightarrow> elem | _ \<Rightarrow> t) = Struct s
      \<and> getJsTag unquote (Tag s index) \<noteq> [] \<longrightarrow>
        (redirectChain und ss \<and> hd ss = s \<and> IsJsObject (FieldType (last ss ! 0)) \<longrightarrow>
           selectionLoop und unquote reserved c position t (index # rest) path =
             Some (Inr ((path @ map (firstName reserved) ss, getJsTag unquote (Tag s index)), c)))
        \<and> (redirectChain und ss \<and> hd ss = s \<and> \<not> IsJsObject (FieldType (last ss ! 0))
              \<and> firstFieldStruct und (last ss) = None \<longrightarrow>
           selectionLoop und unquote reserved c position t (index # rest) path =
             Some (Inr (([], []),
               addError c (missingJsObject c position (FieldName (s ! index))))))
        \<and> (endless und C \<and> s \<in> C \<longrightarrow>
           selectionLoop und unquote reserved c position t (index # rest) path = None)
        \<and> (selectionLoop und unquote reserved c position t (index # rest) path
              = Some (Inr ((path', tag), c')) \<longrightarrow>
             (path' \<noteq> [] \<and> tag = getJsTag unquote (Tag s index) \<and> c' = c)
             \<or> (path' = [] \<and> tag = []
                 \<and> c' = addError c (missingJsObject c position (FieldName (s ! index))))))
   \<and> errList (pctx (addError c err)) = errList (pctx c) @ [err]
   \<and> Soft (missingJsObject c position jsFieldName)
   \<and> Pos (missingJsObject c position jsFieldName) = position
   \<and> Fset (missingJsObject c position jsFieldName) = fileSet (pctx c)
   \<and> (unquote ([QUOTE] @ ''val'' @ [QUOTE]) \<noteq> [] \<longrightarrow>
        translateSelection nodeDecls unquote reserved c
          \<lparr>Recv = Named nodeObject, SelIndex = [1]\<rparr> position = None)\<close>
proof (intro conjI impI)
  show \<open>errList (pctx (addError c err)) = errList (pctx c) @ [err]\<close>
    by (simp add: addError_def)
  show \<open>Soft (missingJsObject c position jsFieldName)\<close>
    \<open>Pos (missingJsObject c position jsFieldName) = position\<close>
    \<open>Fset (missingJsObject c position jsFieldName) = fileSet (pctx c)\<close>
    by (simp_all add: missingJsObject_def)
next
  assume u: \<open>unquote ([QUOTE] @ ''val'' @ [QUOTE]) \<noteq> []\<close>
  have t: \<open>getJsTag unquote (Tag nodeStruct 1) \<noteq> []\<close>
    using u getJsTag_example [of unquote] by (simp add: Tag_def nodeStruct_def)
  have d: \<open>Underlying nodeDecls (case Named nodeObject of Pointer elem \<Rightarrow> elem | _ \<Rightarrow> Named nodeObject)
      = Struct nodeStruct\<close>
    by (simp add: nodeDecls_def)
  have n: \<open>jsObjectPath nodeDecls reserved nodeStruct [] = None\<close>
    by (rule jsObjectPath_diverges [OF nodeStruct_endless]) simp
  have \<open>selectionLoop nodeDecls unquote reserved c position (Named nodeObject) [1] [] = None\<close>
    unfolding selectionLoop_redirect [OF d t] n by simp
  then show \<open>translateSelection nodeDecls unquote reserved c
          \<lparr>Recv = Named nodeObject, SelIndex = [1]\<rparr> position = None\<close>
    by (simp only: translateSelection_def selection.simps)
next
  assume h: \<open>Underlying und (case t of Pointer elem \<Rightarrow> elem | _ \<Rightarrow> t) = Struct s
      \<and> getJsTag unquote (Tag s index) \<noteq> []\<close>
  then have r: \<open>selectionLoop und unquote reserved c position t (index # rest) path =
     (case jsObjectPath und reserved s path of
        None \<Rightarrow> None
      | Some (Inl e) \<Rightarrow> Some (Inl e)
      | Some (Inr (Some path')) \<Rightarrow> Some (Inr ((path', getJsTag unquote (Tag s index)), c))
      | Some (Inr None) \<Rightarrow>
          Some (Inr (([], []),
            addError c (missingJsObject c position (FieldName (s ! index))))))\<close>
    using selectionLoop_redirect [of und t s unquote index reserved c position rest path] by blast
  {
    assume \<open>redirectChain und ss \<and> hd ss = s \<and> IsJsObject (FieldType (last ss ! 0))\<close>
    then show \<open>selectionLoop und unquote reserved c position t (index # rest) path =
             Some (Inr ((path @ map (firstName reserved) ss, getJsTag unquote (Tag s index)), c))\<close>
      unfolding r using jsObjectPath_found [of und ss reserved path] by auto
  next
    assume \<open>redirectChain und ss \<and> hd ss = s \<and> \<not> IsJsObject (FieldType (last ss ! 0))
              \<and> firstFieldStruct und (last ss) = None\<close>
    then show \<open>selectionLoop und unquote reserved c position t (index # rest) path =
             Some (Inr (([], []),
               addError c (missingJsObject c position (FieldName (s ! index)))))\<close>
      unfolding r using jsObjectPath_missing [of und ss reserved path] by auto
  next
    assume \<open>endless und C \<and> s \<in> C\<close>
    then show \<open>selectionLoop und unquote reserved c position t (index # rest) path = None\<close>
      unfolding r using jsObjectPath_diverges [of und C s reserved path] by simp
  next
    assume \<open>selectionLoop und unquote reserved c position t (index # rest) path
              = Some (Inr ((path', tag), c'))\<close>
    then show \<open>(path' \<noteq> [] \<and> tag = getJsTag unquote (Tag s index) \<and> c' = c)
             \<or> (path' = [] \<and> tag = []
                 \<and> c' = addError c (missingJsObject c position (FieldName (s ! index))))\<close>
      unfolding r
      by (auto split: option.splits sum.splits dest: jsObjectPath_path)
  }
qed

text \<open>The struct types \<^verbatim>\<open>struct { *js.Object; Name string `js:"name"` }\<close> and
  \<^verbatim>\<open>struct { id int; Name string `js:"name"` }\<close>.\<close>

definition personStruct :: "field list" where
  \<open>personStruct =
     [Field ''Object'' (Pointer (Named jsObject)) [] True,
      Field ''Name'' (Basic (Typ String)) (''js:'' @ [QUOTE] @ ''name'' @ [QUOTE]) False]\<close>

definition recordStruct :: "field list" where
  \<open>recordStruct =
     [Field ''id'' (Basic (Typ Int')) [] False,
      Field ''Name'' (Basic (Typ String)) (''js:'' @ [QUOTE] @ ''name'' @ [QUOTE]) False]\<close>

lemma getJsTag_name:
  \<open>getJsTag plainUnquote (''js:'' @ [QUOTE] @ ''name'' @ [QUOTE]) = ''name''\<close>
  by (simp add: getJsTag.simps plainUnquote_def)

theorem translateSelection_redirect_witness:
  \<open>translateSelection noDecls plainUnquote {} emptyFuncContext
       \<lparr>Recv = Struct personStruct, SelIndex = [1]\<rparr> 7
     = Some (Inr (([''Object''], ''name''), emptyFuncContext))
   \<and> translateSelection noDecls plainUnquote {} emptyFuncContext
       \<lparr>Recv = Pointer (Struct recordStruct), SelIndex = [1]\<rparr> 7
     = Some (Inr (([], []),
         addError emptyFuncContext (missingJsObject emptyFuncContext 7 ''Name'')))
   \<and> errList (pctx (addError emptyFuncContext (missingJsObject emptyFuncContext 7 ''Name'')))
     = [\<lparr>Fset = 0, Pos = 7,
          Msg = ''could not find field with type *js.Object for '' @ [APOS] @ ''js'' @ [APOS]
                @ '' tag of field '' @ [APOS] @ ''Name'' @ [APOS],
          Soft = True\<rparr>]
   \<and> endless nodeDecls {nodeStruct}
   \<and> selectionLoop nodeDecls plainUnquote {} emptyFuncContext 7 (Named nodeObject) [1] [] = None
   \<and> translateSelection nodeDecls plainUnquote {} emptyFuncContext
       \<lparr>Recv = Named nodeObject, SelIndex = [1]\<rparr> 7 = None\<close>
proof -
  let ?c = emptyFuncContext
  have tp: \<open>Tag personStruct 1 = ''js:'' @ [QUOTE] @ ''name'' @ [QUOTE]\<close>
    and tr: \<open>Tag recordStruct 1 = ''js:'' @ [QUOTE] @ ''name'' @ [QUOTE]\<close>
    and tn: \<open>Tag nodeStruct 1 = ''js:'' @ [QUOTE] @ ''val'' @ [QUOTE]\<close>
    by (simp_all add: Tag_def personStruct_def recordStruct_def nodeStruct_def)
  have gp: \<open>getJsTag plainUnquote (Tag personStruct 1) = ''name''\<close>
    and gr: \<open>getJsTag plainUnquote (Tag recordStruct 1) = ''name''\<close>
    unfolding tp tr by (rule getJsTag_name)+
  have gn: \<open>getJsTag plainUnquote (Tag nodeStruct 1) \<noteq> []\<close>
    unfolding tn getJsTag_example by (simp add: plainUnquote_def)
  have hp: \<open>Underlying noDecls (case Struct personStruct of Pointer elem \<Rightarrow> elem | _ \<Rightarrow> Struct personStruct)
        = Struct personStruct \<and> getJsTag plainUnquote (Tag personStruct 1) \<noteq> []\<close>
    using gp by simp
  have hr: \<open>Underlying noDecls
        (case Pointer (Struct recordStruct) of Pointer elem \<Rightarrow> elem | _ \<Rightarrow> Pointer (Struct recordStruct))
        = Struct recordStruct \<and> getJsTag plainUnquote (Tag recordStruct 1) \<noteq> []\<close>
    using gr by simp
  have hn: \<open>Underlying nodeDecls (case Named nodeObject of Pointer elem \<Rightarrow> elem | _ \<Rightarrow> Named nodeObject)
        = Struct nodeStruct \<and> getJsTag plainUnquote (Tag nodeStruct 1) \<noteq> []\<close>
    using gn by (simp add: nodeDecls_def)
  have cp: \<open>redirectChain noDecls [personStruct] \<and> hd [personStruct] = personStruct
      \<and> IsJsObject (FieldType (last [personStruct] ! 0))\<close>
    by (simp add: personStruct_def IsJsObject_def jsObject_def)
  have cr: \<open>redirectChain noDecls [recordStruct] \<and> hd [recordStruct] = recordStruct
      \<and> \<not> IsJsObject (FieldType (last [recordStruct] ! 0))
      \<and> firstFieldStruct noDecls (last [recordStruct]) = None\<close>
    by (simp add: recordStruct_def IsJsObject_def firstFieldStruct_def)
  have en: \<open>endless nodeDecls {nodeStruct} \<and> nodeStruct \<in> {nodeStruct}\<close>
    by (simp add: nodeStruct_endless)
  have fp: \<open>map (firstName {}) [personStruct] = [''Object'']\<close>
    by (simp add: firstName_def fieldName_def personStruct_def)
  have nr: \<open>FieldName (recordStruct ! 1) = ''Name''\<close> by (simp add: recordStruct_def)
  note t1 = translateSelection_redirect
    [where und = noDecls and t = \<open>Struct personStruct\<close> and s = personStruct
      and unquote = plainUnquote and index = 1 and ss = \<open>[personStruct]\<close> and reserved = \<open>{}\<close>
      and c = ?c and position = 7 and rest = \<open>[]\<close> and path = \<open>[]\<close>,
      THEN conjunct1, rule_format, OF hp, THEN conjunct1, rule_format, OF cp]
  note t2 = translateSelection_redirect
    [where und = noDecls and t = \<open>Pointer (Struct recordStruct)\<close> and s = recordStruct
      and unquote = plainUnquote and index = 1 and ss = \<open>[recordStruct]\<close> and reserved = \<open>{}\<close>
      and c = ?c and position = 7 and rest = \<open>[]\<close> and path = \<open>[]\<close>,
      THEN conjunct1, rule_format, OF hr, THEN conjunct2, THEN conjunct1, rule_format, OF cr]
  note t3 = translateSelection_redirect
    [where und = nodeDecls and t = \<open>Named nodeObject\<close> and s = nodeStruct
      and unquote = plainUnquote and index = 1 and C = \<open>{nodeStruct}\<close> and reserved = \<open>{}\<close>
      and c = ?c and position = 7 and rest = \<open>[]\<close> and path = \<open>[]\<close>,
      THEN conjunct1, rule_format, OF hn, THEN conjunct2, THEN conjunct2, THEN conjunct1,
      rule_format, OF en]
  have u: \<open>plainUnquote ([QUOTE] @ ''val'' @ [QUOTE]) \<noteq> []\<close> by (simp add: plainUnquote_def)
  note t4 = translateSelection_redirect
    [where unquote = plainUnquote and reserved = \<open>{}\<close> and c = ?c and position = 7,
      THEN conjunct2, THEN conjunct2, THEN conjunct2, THEN conjunct2, THEN conjunct2,
      rule_format, OF u]
  have c1: \<open>translateSelection noDecls plainUnquote {} ?c
       \<lparr>Recv = Struct personStruct, SelIndex = [1]\<rparr> 7
     = Some (Inr (([''Object''], ''name''), ?c))\<close>
    using t1 fp gp by (simp add: translateSelection_def)
  have c2: \<open>translateSelection noDecls plainUnquote {} ?c
       \<lparr>Recv = Pointer (Struct recordStruct), SelIndex = [1]\<rparr> 7
     = Some (Inr (([], []), addError ?c (missingJsObject ?c 7 ''Name'')))\<close>
    using t2 nr by (simp add: translateSelection_def)
  have c3: \<open>errList (pctx (addError ?c (missingJsObject ?c 7 ''Name'')))
     = [\<lparr>Fset = 0, Pos = 7,
          Msg = ''could not find field with type *js.Object for '' @ [APOS] @ ''js'' @ [APOS]
                @ '' tag of field '' @ [APOS] @ ''Name'' @ [APOS],
          Soft = True\<rparr>]\<close>
    by (simp add: addError_def missingJsObject_def emptyFuncContext_def emptyPkgContext_def)
  show ?thesis
    by (rule conjI [OF c1 conjI [OF c2 conjI [OF c3 conjI [OF nodeStruct_endless conjI [OF t3 t4]]]]])
qed

end
